theory Spec2Isabelle
  imports Complex_Main "HOL-Library.Sublist" "HOL-Library.Char_ord" "HOL-Library.List_Lexorder"
begin

section \<open>Python strings\<close>

text \<open>
  A Python \<open>str\<close> is modelled as a \<^typ>\<open>string\<close>: one \<^typ>\<open>char\<close> per code point, for code
  points below 256. The four characters the salvage parser looks at are named.
\<close>

abbreviation lbrace :: char where "lbrace \<equiv> CHR 0x7B"
abbreviation rbrace :: char where "rbrace \<equiv> CHR 0x7D"
abbreviation dquote :: char where "dquote \<equiv> CHR 0x22"
abbreviation bslash :: char where "bslash \<equiv> CHR 0x5C"

text \<open>\<open>str.isspace\<close> on one code point below 256: TAB, LF, VT, FF, CR, FS, GS, RS, US, space,
  NEL and the no-break space.\<close>

definition py_isspace :: "char \<Rightarrow> bool" where
  "py_isspace c = (of_char c \<in> set [9, 10, 11, 12, 13, 28, 29, 30, 31, 32, 133, 160 :: nat])"

text \<open>\<open>str.strip()\<close> without argument: leading and trailing whitespace removed.\<close>

definition strip :: "string \<Rightarrow> string" where
  "strip s = rev (dropWhile py_isspace (rev (dropWhile py_isspace s)))"

text \<open>A slice \<open>s[a:b]\<close>: a negative index counts from the end, and both are clipped to the
  length.\<close>

definition slice_index :: "nat \<Rightarrow> int \<Rightarrow> nat" where
  "slice_index n k = (if k < 0 then nat (max 0 (int n + k)) else min n (nat k))"

definition py_slice :: "'a list \<Rightarrow> int \<Rightarrow> int \<Rightarrow> 'a list" where
  "py_slice s a b =
     (let lo = slice_index (length s) a; hi = slice_index (length s) b
      in take (hi - lo) (drop lo s))"

section \<open>The salvage parser: \<open>extract_first_json_object\<close> (scraper.py)\<close>

text \<open>The four local variables of the scan.\<close>

record scan_state =
  start :: int
  brace_count :: int
  in_string :: bool
  escape :: bool

definition scan_init :: scan_state where
  "scan_init = \<lparr>start = - 1, brace_count = 0, in_string = False, escape = False\<rparr>"

text \<open>One pass through the loop body either returns the slice or goes on to the next
  character with the updated variables.\<close>

datatype flow = Return string | Next scan_state

text \<open>The last statement of the body: \<open>if escape: escape = False\<close>.\<close>

definition end_of_body :: "scan_state \<Rightarrow> flow" where
  "end_of_body st = Next (if escape st then st\<lparr>escape := False\<rparr> else st)"

definition loop_body :: "string \<Rightarrow> nat \<Rightarrow> char \<Rightarrow> scan_state \<Rightarrow> flow" where
  "loop_body s i ch st =
     (if ch = bslash \<and> \<not> escape st then Next (st\<lparr>escape := True\<rparr>)
      else
        let st1 = (if ch = dquote \<and> \<not> escape st then st\<lparr>in_string := \<not> in_string st\<rparr> else st)
        in
          if \<not> in_string st1 then
            if ch = lbrace then
              let st2 = (if brace_count st1 = 0 then st1\<lparr>start := int i\<rparr> else st1)
              in end_of_body (st2\<lparr>brace_count := brace_count st2 + 1\<rparr>)
            else if ch = rbrace then
              if brace_count st1 > 0 then
                let st2 = st1\<lparr>brace_count := brace_count st1 - 1\<rparr>
                in
                  if brace_count st2 = 0 \<and> start st2 \<noteq> - 1
                  then Return (py_slice s (start st2) (int i + 1))
                  else end_of_body st2
              else end_of_body st1
            else end_of_body st1
          else end_of_body st1)"

text \<open>The \<open>for i, ch in enumerate(s)\<close> loop over the characters still to read; falling off the
  end is \<open>return None\<close>.\<close>

fun scan_from :: "string \<Rightarrow> nat \<Rightarrow> scan_state \<Rightarrow> string \<Rightarrow> string option" where
  "scan_from s i st [] = None"
| "scan_from s i st (ch # rest) =
     (case loop_body s i ch st of
        Return r \<Rightarrow> Some r
      | Next st' \<Rightarrow> scan_from s (Suc i) st' rest)"

definition extract_first_json_object :: "string \<Rightarrow> string option" where
  "extract_first_json_object text =
     (if text = [] then None
      else let s = strip text in scan_from s 0 scan_init s)"

subsection \<open>Balanced text\<close>

text \<open>
  The texts the claims about the parser speak of. The inside of a JSON string: any characters
  but the double quote and the backslash, and backslash pairs.
\<close>

inductive str_body :: "string \<Rightarrow> bool" where
  str_nil: "str_body []"
| str_chr: "c \<noteq> dquote \<Longrightarrow> c \<noteq> bslash \<Longrightarrow> str_body cs \<Longrightarrow> str_body (c # cs)"
| str_esc: "str_body cs \<Longrightarrow> str_body (bslash # x # cs)"

text \<open>The inside of a string that is never closed: it may also end on a backslash.\<close>

inductive open_str :: "string \<Rightarrow> bool" where
  open_nil: "open_str []"
| open_chr: "c \<noteq> dquote \<Longrightarrow> c \<noteq> bslash \<Longrightarrow> open_str cs \<Longrightarrow> open_str (c # cs)"
| open_esc: "open_str cs \<Longrightarrow> open_str (bslash # x # cs)"
| open_end: "open_str [bslash]"

text \<open>A brace outside of a string counts with or without a backslash in front of it.\<close>

definition open_brace :: "string set" where
  "open_brace = {[lbrace], [bslash, lbrace]}"

definition close_brace :: "string set" where
  "close_brace = {[rbrace], [bslash, rbrace]}"

text \<open>
  Text whose braces match, outside of its strings, and whose strings are closed: what stands
  between the braces of a JSON object. Outside of a string a backslash takes the next
  character with it, which matters when that is a double quote or a backslash.
\<close>

inductive balanced :: "string \<Rightarrow> bool" where
  bal_nil: "balanced []"
| bal_chr: "c \<notin> {lbrace, rbrace, dquote, bslash} \<Longrightarrow> balanced cs \<Longrightarrow> balanced (c # cs)"
| bal_str: "str_body b \<Longrightarrow> balanced cs \<Longrightarrow> balanced (dquote # b @ dquote # cs)"
| bal_esc: "x \<noteq> lbrace \<Longrightarrow> x \<noteq> rbrace \<Longrightarrow> balanced cs \<Longrightarrow> balanced (bslash # x # cs)"
| bal_obj: "ob \<in> open_brace \<Longrightarrow> balanced b \<Longrightarrow> cb \<in> close_brace \<Longrightarrow> balanced cs \<Longrightarrow>
            balanced (ob @ b @ cb @ cs)"

text \<open>
  Prose in front of an object: no opening brace outside of its strings, and its strings are
  closed. A closing brace may occur: at depth zero the scan passes over it. The prose may end
  on a backslash, which then stands in front of the brace that follows.
\<close>

inductive quiet_prose :: "string \<Rightarrow> bool" where
  prose_nil: "quiet_prose []"
| prose_chr: "c \<notin> {lbrace, dquote, bslash} \<Longrightarrow> quiet_prose cs \<Longrightarrow> quiet_prose (c # cs)"
| prose_str: "str_body b \<Longrightarrow> quiet_prose cs \<Longrightarrow> quiet_prose (dquote # b @ dquote # cs)"
| prose_esc: "x \<noteq> lbrace \<Longrightarrow> quiet_prose cs \<Longrightarrow> quiet_prose (bslash # x # cs)"

definition prose :: "string \<Rightarrow> bool" where
  "prose p = (quiet_prose p \<or> (\<exists>q. p = q @ [bslash] \<and> quiet_prose q))"

text \<open>
  What may follow an opening brace that is never closed: balanced text and further opening
  braces, and at the very end a string that is never closed or a backslash.
\<close>

inductive unclosed :: "string \<Rightarrow> bool" where
  unclosed_nil: "unclosed []"
| unclosed_bs: "unclosed [bslash]"
| unclosed_str: "open_str s \<Longrightarrow> unclosed (dquote # s)"
| unclosed_open: "ob \<in> open_brace \<Longrightarrow> unclosed u \<Longrightarrow> unclosed (ob @ u)"
| unclosed_bal: "balanced b \<Longrightarrow> unclosed u \<Longrightarrow> unclosed (b @ u)"

text \<open>How often a character occurs in a text.\<close>

definition occurrences :: "char \<Rightarrow> string \<Rightarrow> nat" where
  "occurrences c s = length (filter (\<lambda>x. x = c) s)"

section \<open>Dates (\<open>datetime.date\<close>) and decimal numerals\<close>

text \<open>
  A \<open>date\<close> is modelled by its proleptic Gregorian ordinal (\<open>date.toordinal()\<close>): day 1 is
  0001-01-01 and \<open>date.max\<close>, 9999-12-31, is day 3652059. Adding a \<open>timedelta\<close> raises
  \<open>OverflowError\<close> when the \<open>timedelta\<close> cannot be built (more than 999999999 days) or the
  result leaves that range.
\<close>

type_synonym date = int

datatype error = OverflowError

definition max_ordinal :: int where
  "max_ordinal = 3652059"

definition date_plus_days :: "date \<Rightarrow> int \<Rightarrow> error + date" where
  "date_plus_days d k =
     (if \<bar>k\<bar> \<le> 999999999 \<and> 0 < d + k \<and> d + k \<le> max_ordinal then Inr (d + k)
      else Inl OverflowError)"

text \<open>\<open>str(n)\<close> for an integer.\<close>

definition digit_char :: "nat \<Rightarrow> char" where
  "digit_char n = ''0123456789'' ! n"

fun str_nat :: "nat \<Rightarrow> string" where
  "str_nat n = (if n < 10 then [digit_char n] else str_nat (n div 10) @ [digit_char (n mod 10)])"

definition str_int :: "int \<Rightarrow> string" where
  "str_int i = (if i < 0 then CHR ''-'' # str_nat (nat (- i)) else str_nat (nat i))"

text \<open>\<open>int(x)\<close> for a float truncates towards zero.\<close>

definition py_int_of_float :: "real \<Rightarrow> int" where
  "py_int_of_float x = (if 0 \<le> x then \<lfloor>x\<rfloor> else \<lceil>x\<rceil>)"

text \<open>
  \<open>strftime('%Y-%m-%d')\<close> belongs to the C library; the planners below take it as a
  parameter. \<open>strftime_ymd\<close> is what it prints for the years 1000 to 9999, computed from the
  ordinal the way \<open>datetime\<close> does (400-, 100-, 4- and 1-year cycles, then the month table).
\<close>

definition days_before_month :: "nat list" where
  "days_before_month = [0, 0, 31, 59, 90, 120, 151, 181, 212, 243, 273, 304, 334]"

definition days_in_month :: "nat list" where
  "days_in_month = [0, 31, 28, 31, 30, 31, 30, 31, 31, 30, 31, 30, 31]"

definition ord2ymd :: "nat \<Rightarrow> nat \<times> nat \<times> nat" where
  "ord2ymd ordinal =
     (let n = ordinal - 1;
          n400 = n div 146097; n = n mod 146097;
          n100 = n div 36524; n = n mod 36524;
          n4 = n div 1461; n = n mod 1461;
          n1 = n div 365; n = n mod 365;
          year = n400 * 400 + 1 + n100 * 100 + n4 * 4 + n1
      in if n1 = 4 \<or> n100 = 4 then (year - 1, 12, 31)
         else
           let leapyear = (n1 = 3 \<and> (n4 \<noteq> 24 \<or> n100 = 3));
               month = (n + 50) div 32;
               preceding = days_before_month ! month + (if month > 2 \<and> leapyear then 1 else 0)
           in if preceding > n
              then
                let month = month - 1;
                    preceding = preceding -
                      (days_in_month ! month + (if month = 2 \<and> leapyear then 1 else 0))
                in (year, month, n - preceding + 1)
              else (year, month, n - preceding + 1))"

definition zero_pad :: "nat \<Rightarrow> string \<Rightarrow> string" where
  "zero_pad w s = replicate (w - length s) (CHR ''0'') @ s"

definition strftime_ymd :: "date \<Rightarrow> string" where
  "strftime_ymd d =
     (case ord2ymd (nat d) of
        (y, m, dd) \<Rightarrow>
          zero_pad 4 (str_nat y) @ ''-'' @ zero_pad 2 (str_nat m) @ ''-'' @ zero_pad 2 (str_nat dd))"

section \<open>The navigation planners\<close>

text \<open>Running a fallible step over a list, stopping at the first exception.\<close>

fun collect :: "('a \<Rightarrow> error + 'b) \<Rightarrow> 'a list \<Rightarrow> error + 'b list" where
  "collect f [] = Inr []"
| "collect f (x # xs) =
     (case f x of
        Inl e \<Rightarrow> Inl e
      | Inr y \<Rightarrow> (case collect f xs of Inl e \<Rightarrow> Inl e | Inr ys \<Rightarrow> Inr (y # ys)))"

text \<open>The f-string both scripts build the page address with.\<close>

definition dated_url :: "string \<Rightarrow> string \<Rightarrow> string \<Rightarrow> string" where
  "dated_url base checkin_str checkout_str =
     base @ ''?chkin='' @ checkin_str @ ''&chkout='' @ checkout_str @ ''&x_pwa=1&rfrr=HSR''"

text \<open>
  scraper.py, \<open>scrape_hotel_prices\<close>: the list \<open>urls_and_dates\<close>. An entry, the dictionary
  \<open>{"url": url, "date": checkin_str}\<close>, is the pair \<open>(url, checkin_str)\<close>.
\<close>

definition pricing_entry :: "(date \<Rightarrow> string) \<Rightarrow> string \<Rightarrow> date \<Rightarrow> int \<Rightarrow> error + string \<times> string" where
  "pricing_entry strftime hotel_url start_date i =
     (case date_plus_days start_date i of
        Inl e \<Rightarrow> Inl e
      | Inr checkin_date \<Rightarrow>
          (case date_plus_days checkin_date 1 of
             Inl e \<Rightarrow> Inl e
           | Inr checkout_date \<Rightarrow>
               Inr (dated_url hotel_url (strftime checkin_date) (strftime checkout_date),
                    strftime checkin_date)))"

definition urls_and_dates :: "(date \<Rightarrow> string) \<Rightarrow> string \<Rightarrow> date \<Rightarrow> int \<Rightarrow> error + (string \<times> string) list" where
  "urls_and_dates strftime hotel_url start_date num_days_to_scrape =
     collect (pricing_entry strftime hotel_url start_date) (map int [0..<nat num_days_to_scrape])"

text \<open>
  discovery\_room.py, \<open>discover_hotel_rooms\<close>: the address and the check-in string of each
  sample of the loop \<open>for day_offset in range(num_days_to_check)\<close>.
\<close>

definition discovery_entry ::
  "(date \<Rightarrow> string) \<Rightarrow> string \<Rightarrow> date \<Rightarrow> int \<Rightarrow> int \<Rightarrow> error + string \<times> string" where
  "discovery_entry strftime base_url start_date sample_interval day_offset =
     (case date_plus_days start_date (day_offset * sample_interval) of
        Inl e \<Rightarrow> Inl e
      | Inr checkin_date \<Rightarrow>
          (case date_plus_days checkin_date 1 of
             Inl e \<Rightarrow> Inl e
           | Inr checkout_date \<Rightarrow>
               Inr (dated_url base_url (strftime checkin_date) (strftime checkout_date),
                    strftime checkin_date)))"

definition discovery_samples ::
  "(date \<Rightarrow> string) \<Rightarrow> string \<Rightarrow> date \<Rightarrow> int \<Rightarrow> int \<Rightarrow> error + (string \<times> string) list" where
  "discovery_samples strftime base_url start_date num_days_to_check sample_interval =
     collect (discovery_entry strftime base_url start_date sample_interval)
       (map int [0..<nat num_days_to_check])"

section \<open>The discovery aggregator (discovery\_room.py)\<close>

text \<open>
  An element of the parsed JSON array, as far as the comprehension
  \<open>set(str(item) for item in room_list if isinstance(item, (str, dict)))\<close> tells elements
  apart: a string, a dictionary (carried as the text \<open>str\<close> prints for it), or anything else.
\<close>

datatype item = Str string | Dict string | Other

fun str_of_item :: "item \<Rightarrow> string option" where
  "str_of_item (Str s) = Some s"
| "str_of_item (Dict s) = Some s"
| "str_of_item Other = None"

text \<open>What one sample's crawl and \<open>json.loads\<close> come to.\<close>

datatype sample = CrawlFailed | JSONDecodeFailed | NotAList | RoomList "item list"

definition current_sample_rooms :: "item list \<Rightarrow> string set" where
  "current_sample_rooms room_list = set (List.map_filter str_of_item room_list)"

fun add_sample :: "string set \<Rightarrow> sample \<Rightarrow> string set" where
  "add_sample discovered_rooms (RoomList room_list) =
     discovered_rooms \<union> current_sample_rooms room_list"
| "add_sample discovered_rooms _ = discovered_rooms"

definition discovered_rooms :: "sample list \<Rightarrow> string set" where
  "discovered_rooms samples = foldl add_sample {} samples"

text \<open>\<open>room_types=sorted(list(discovered_rooms))\<close>: strings compare by code point,
  lexicographically.\<close>

definition room_types_of :: "sample list \<Rightarrow> string list" where
  "room_types_of samples = sorted_list_of_set (discovered_rooms samples)"

section \<open>The session manager (scraper.py)\<close>

definition user_agents :: "string list" where
  "user_agents =
     [''Mozilla/5.0 (Windows NT 10.0; Win64; x64) AppleWebKit/537.36 (KHTML, like Gecko) Chrome/120.0.0.0 Safari/537.36'',
      ''Mozilla/5.0 (Windows NT 10.0; Win64; x64) AppleWebKit/537.36 (KHTML, like Gecko) Chrome/119.0.0.0 Safari/537.36'',
      ''Mozilla/5.0 (Macintosh; Intel Mac OS X 10_15_7) AppleWebKit/537.36 (KHTML, like Gecko) Chrome/120.0.0.0 Safari/537.36'',
      ''Mozilla/5.0 (Macintosh; Intel Mac OS X 10_15_7) AppleWebKit/537.36 (KHTML, like Gecko) Chrome/119.0.0.0 Safari/537.36'',
      ''Mozilla/5.0 (Windows NT 10.0; Win64; x64; rv:121.0) Gecko/20100101 Firefox/121.0'',
      ''Mozilla/5.0 (Windows NT 10.0; Win64; x64; rv:120.0) Gecko/20100101 Firefox/120.0'',
      ''Mozilla/5.0 (Macintosh; Intel Mac OS X 10.15; rv:121.0) Gecko/20100101 Firefox/121.0'',
      ''Mozilla/5.0 (Macintosh; Intel Mac OS X 10.15; rv:120.0) Gecko/20100101 Firefox/120.0'',
      ''Mozilla/5.0 (Macintosh; Intel Mac OS X 10_15_7) AppleWebKit/605.1.15 (KHTML, like Gecko) Version/17.2 Safari/605.1.15'',
      ''Mozilla/5.0 (Macintosh; Intel Mac OS X 10_15_7) AppleWebKit/605.1.15 (KHTML, like Gecko) Version/17.1 Safari/605.1.15'',
      ''Mozilla/5.0 (Windows NT 10.0; Win64; x64) AppleWebKit/537.36 (KHTML, like Gecko) Chrome/120.0.0.0 Safari/537.36 Edg/120.0.0.0'']"

text \<open>A viewport dictionary \<open>{"width": w, "height": h}\<close> is the pair \<open>(w, h)\<close>.\<close>

definition viewports :: "(int \<times> int) list" where
  "viewports =
     [(1920, 1080), (1366, 768), (1440, 900), (1536, 864), (1280, 720), (1600, 900), (2560, 1440)]"

text \<open>
  The constructor reads the clock twice and the random generator three times. These five
  readings are its input here: \<open>random.choice\<close> takes the element its reading selects, and
  \<open>random.randint(1000, 9999)\<close> the number of that range its reading selects.
\<close>

record readings =
  id_time :: real
  id_random :: nat
  agent_random :: nat
  viewport_random :: nat
  start_clock :: real

definition random_choice :: "'a list \<Rightarrow> nat \<Rightarrow> 'a" where
  "random_choice xs r = xs ! (r mod length xs)"

definition random_randint :: "int \<Rightarrow> int \<Rightarrow> nat \<Rightarrow> int" where
  "random_randint a b r = a + int (r mod nat (b - a + 1))"

definition get_random_user_agent :: "nat \<Rightarrow> string" where
  "get_random_user_agent r = random_choice user_agents r"

definition get_random_viewport :: "nat \<Rightarrow> int \<times> int" where
  "get_random_viewport r = random_choice viewports r"

record session_manager =
  session_id :: string
  user_agent :: string
  viewport :: "int \<times> int"
  request_count :: int
  start_time :: real

text \<open>\<open>SessionManager.__init__\<close>; \<open>cleanup_browser_data\<close> only prints.\<close>

definition session_manager_init :: "readings \<Rightarrow> session_manager" where
  "session_manager_init rd =
     \<lparr>session_id =
        ''session_'' @ str_int (py_int_of_float (id_time rd)) @ ''_'' @
        str_int (random_randint 1000 9999 (id_random rd)),
      user_agent = get_random_user_agent (agent_random rd),
      viewport = get_random_viewport (viewport_random rd),
      request_count = 0,
      start_time = start_clock rd\<rparr>"

definition time_limit :: real where
  "time_limit = 20 * 60"

definition request_limit :: int where
  "request_limit = 10"

text \<open>\<open>should_rotate_session\<close>, with the value \<open>time.time()\<close> returns as \<open>now\<close>.\<close>

definition should_rotate_session :: "session_manager \<Rightarrow> real \<Rightarrow> bool" where
  "should_rotate_session sm now =
     (let elapsed = now - start_time sm
      in request_count sm \<ge> request_limit \<or> elapsed \<ge> time_limit)"

definition increment_request :: "session_manager \<Rightarrow> session_manager" where
  "increment_request sm = sm\<lparr>request_count := request_count sm + 1\<rparr>"

text \<open>\<open>rotate_session\<close> runs the constructor again on the same object: every attribute is
  assigned anew.\<close>

definition rotate_session :: "session_manager \<Rightarrow> readings \<Rightarrow> session_manager" where
  "rotate_session sm rd =
     sm\<lparr>session_id := session_id (session_manager_init rd),
        user_agent := user_agent (session_manager_init rd),
        viewport := viewport (session_manager_init rd),
        request_count := request_count (session_manager_init rd),
        start_time := start_time (session_manager_init rd)\<rparr>"

section \<open>The CAPTCHA checks (scraper.py)\<close>

text \<open>\<open>str.lower()\<close> on one code point below 256: the ASCII capitals and the Latin-1 capitals
  (all of \<open>0xC0\<close> to \<open>0xDE\<close> but the multiplication sign) move up by 32.\<close>

definition py_lower_char :: "char \<Rightarrow> char" where
  "py_lower_char c =
     (let n = of_char c :: nat
      in if (65 \<le> n \<and> n \<le> 90) \<or> (192 \<le> n \<and> n \<le> 222 \<and> n \<noteq> 215) then char_of (n + 32) else c)"

definition py_lower :: "string \<Rightarrow> string" where
  "py_lower s = map py_lower_char s"

text \<open>\<open>needle in haystack\<close> for strings: the needle starts at some position.\<close>

fun py_in :: "string \<Rightarrow> string \<Rightarrow> bool" where
  "py_in needle [] = (needle = [])"
| "py_in needle (c # cs) = (prefix needle (c # cs) \<or> py_in needle cs)"

text \<open>The check on the crawl's output, in Python after \<open>crawler.arun\<close> returns.\<close>

definition captcha_indicators :: "string list" where
  "captcha_indicators =
     [''show us your human side'', ''prove you are human'', ''captcha'', ''start puzzle'']"

definition captcha_detected :: "string \<Rightarrow> bool" where
  "captcha_detected extracted_content =
     (let content_lower = py_lower extracted_content
      in list_ex (\<lambda>indicator. py_in indicator content_lower) captcha_indicators)"

text \<open>The check on the page text, in the JavaScript handed to the browser as \<open>wait_for\<close> and
  again as the second \<open>js_code\<close> snippet: \<open>captchaIndicators.some(indicator =>
  pageText.includes(indicator.toLowerCase()))\<close> with \<open>pageText\<close> in lower case.\<close>

definition captchaIndicators :: "string list" where
  "captchaIndicators =
     [''Show us your human side'', ''prove you are human'', ''captcha'', ''robot'', ''Start Puzzle'']"

definition hasCaptcha :: "string \<Rightarrow> bool" where
  "hasCaptcha innerText =
     (let pageText = py_lower innerText
      in list_ex (\<lambda>indicator. py_in (py_lower indicator) pageText) captchaIndicators)"

section \<open>Delays: \<open>human_like_delay\<close> (scraper.py)\<close>

text \<open>
  A call reads the random generator for the base delay, for the one-in-ten longer break and its
  length, for the number of thinking pauses and for each pause. \<open>random.random()\<close> is
  the fractional part of its reading, a number from 0 up to but not including 1, and
  \<open>random.uniform(a, b)\<close> is \<open>a + (b - a) * random()\<close>. Seconds are reals.
\<close>

record delay_readings =
  base_random :: real
  break_random :: real
  extra_random :: real
  count_random :: nat
  thinking_random :: "nat \<Rightarrow> nat"

definition random_random :: "real \<Rightarrow> real" where
  "random_random r = frac r"

definition random_uniform :: "real \<Rightarrow> real \<Rightarrow> real \<Rightarrow> real" where
  "random_uniform a b r = a + (b - a) * random_random r"

definition thinking_delays :: "real list" where
  "thinking_delays = [0.1, 0.3, 0.5, 0.8]"

text \<open>The seconds slept by one call, one entry for each \<open>asyncio.sleep\<close>, in order: the thinking
  pauses, then the base delay.\<close>

definition human_like_delay :: "real \<Rightarrow> real \<Rightarrow> delay_readings \<Rightarrow> real list" where
  "human_like_delay min_seconds max_seconds rd =
     (let base_delay = random_uniform min_seconds max_seconds (base_random rd);
          base_delay = (if random_random (break_random rd) < 0.1
                        then base_delay + random_uniform 5 15 (extra_random rd)
                        else base_delay);
          pauses = map (\<lambda>k. random_choice thinking_delays (thinking_random rd k))
                     [0..<nat (random_randint 1 3 (count_random rd))]
      in pauses @ [base_delay])"

section \<open>The pricing run: \<open>scrape_hotel_prices\<close> (scraper.py)\<close>

record room_listing =
  name :: string
  price :: string

record daily_rate =
  date :: string
  listings :: "room_listing list"

record hotel_data =
  hotel_name :: string
  daily_rates :: "daily_rate list"

text \<open>Of a \<open>HotelProfile\<close> the run reads three fields; its \<open>hotel_name\<close> is \<open>profile_name\<close>
  here, apart from the field of \<open>HotelData\<close>.\<close>

record hotel_profile =
  profile_name :: string
  hotel_url :: string
  room_types :: "string list"

text \<open>What \<open>crawler.arun\<close> hands back, as far as the run reads it.\<close>

record crawl_result =
  success :: bool
  extracted_content :: "string option"
  error_message :: "string option"

text \<open>What \<open>json.loads\<close>, the \<open>isinstance(daily_rate_data, dict)\<close> test and
  \<open>DailyRate.model_validate\<close> make of a text: one of the two exceptions the run catches, a
  JSON value that is no object, or the validated record.\<close>

datatype decoded = JSONDecodeError | ValidationError | NotADict | Validated daily_rate

text \<open>
  The collaborators of a run: the crawler's answer on the \<open>idx\<close>-th day for an address, the clock
  \<open>should_rotate_session\<close> reads on that day, the readings of the \<open>k\<close>-th session manager
  construction and of the \<open>k\<close>-th call of \<open>human_like_delay\<close>, and the JSON library with the
  schema. Each of them answers: a crawler, a file system or a library that raises anything
  but the two exceptions the run catches ends the run there, which is not followed here.
\<close>

record world =
  arun :: "nat \<Rightarrow> string \<Rightarrow> crawl_result"
  time_at :: "nat \<Rightarrow> real"
  readings_at :: "nat \<Rightarrow> readings"
  delay_readings_at :: "nat \<Rightarrow> delay_readings"
  loads_validate :: "string \<Rightarrow> decoded"

text \<open>What a run does that can be observed from outside, in order. A delay is the list of the
  seconds it sleeps.\<close>

datatype event =
    Rotated
  | Delay "real list"
  | WarmUp
  | Crawl string string
  | SaveFile string string
  | PrintOnlyFound nat nat
  | PrintMissing "string set"
  | PrintUnexpectedFormat
  | PrintFailedToScrape

record run_state =
  sm :: session_manager
  constructed :: nat
  delayed :: nat
  all_daily_rates :: "daily_rate list"
  events :: "event list"

definition emit :: "event list \<Rightarrow> run_state \<Rightarrow> run_state" where
  "emit es st = st\<lparr>events := events st @ es\<rparr>"

definition rotate :: "world \<Rightarrow> run_state \<Rightarrow> run_state" where
  "rotate w st =
     emit [Rotated]
       (st\<lparr>sm := rotate_session (sm st) (readings_at w (constructed st)),
           constructed := Suc (constructed st)\<rparr>)"

text \<open>\<open>await human_like_delay(min_seconds, max_seconds)\<close>.\<close>

definition delay :: "world \<Rightarrow> real \<Rightarrow> real \<Rightarrow> run_state \<Rightarrow> run_state" where
  "delay w min_seconds max_seconds st =
     emit [Delay (human_like_delay min_seconds max_seconds (delay_readings_at w (delayed st)))]
       (st\<lparr>delayed := Suc (delayed st)\<rparr>)"

text \<open>The truth value of \<open>result.success and result.extracted_content\<close>, with the content when
  it is true.\<close>

definition usable_content :: "crawl_result \<Rightarrow> string option" where
  "usable_content result =
     (if success result then
        (case extracted_content result of
           None \<Rightarrow> None
         | Some content \<Rightarrow> if content = [] then None else Some content)
      else None)"

text \<open>The block under the comment \<open># Warning if not all rooms found\<close>.\<close>

definition warn_missing :: "string list \<Rightarrow> daily_rate \<Rightarrow> event list" where
  "warn_missing expected validated_data =
     (let total_expected = length expected;
          total_extracted = length (listings validated_data)
      in if total_extracted < total_expected then
           PrintOnlyFound total_extracted total_expected #
           (let missing = set expected - set (map name (listings validated_data))
            in if missing \<noteq> {} then [PrintMissing missing] else [])
         else [])"

text \<open>The \<open>try\<close> block that parses and validates a day's output.\<close>

definition parse_day :: "world \<Rightarrow> hotel_profile \<Rightarrow> string \<Rightarrow> string \<Rightarrow> run_state \<Rightarrow> run_state" where
  "parse_day w profile current_date_str raw_output st =
     (let json_candidate = extract_first_json_object raw_output;
          to_parse = (case json_candidate of
                        None \<Rightarrow> raw_output
                      | Some j \<Rightarrow> if j = [] then raw_output else j)
      in case loads_validate w to_parse of
           Validated validated_data \<Rightarrow>
             emit (warn_missing (room_types profile) validated_data)
               (st\<lparr>all_daily_rates := all_daily_rates st @ [validated_data]\<rparr>)
         | NotADict \<Rightarrow> emit [PrintUnexpectedFormat] st
         | _ \<Rightarrow> emit [SaveFile (''debug_'' @ current_date_str @ ''.txt'') raw_output] st)"

text \<open>One pass through the loop \<open>for idx, item in enumerate(urls_and_dates, 1)\<close>.\<close>

definition scrape_day :: "world \<Rightarrow> hotel_profile \<Rightarrow> nat \<Rightarrow> string \<times> string \<Rightarrow> run_state \<Rightarrow> run_state" where
  "scrape_day w profile idx item st =
     (let url = fst item;
          current_date_str = snd item;
          st = (if should_rotate_session (sm st) (time_at w idx) then rotate w st else st);
          st = st\<lparr>sm := increment_request (sm st)\<rparr>;
          st = (if idx > 1 then delay w 8 20 st else st);
          st = (if idx = 1 then emit [WarmUp] st else st);
          result = arun w idx url;
          st = emit [Crawl current_date_str url] st
      in case usable_content result of
           Some content \<Rightarrow>
             if captcha_detected content then
               delay w 30 60
                 (rotate w
                    (emit [SaveFile (''captcha_page_'' @ current_date_str @ ''.html'') content] st))
             else parse_day w profile current_date_str content st
         | None \<Rightarrow> delay w 5 10 (rotate w (emit [PrintFailedToScrape] st)))"

fun scrape_days ::
  "world \<Rightarrow> hotel_profile \<Rightarrow> nat \<Rightarrow> (string \<times> string) list \<Rightarrow> run_state \<Rightarrow> run_state" where
  "scrape_days w profile idx [] st = st"
| "scrape_days w profile idx (item # items) st =
     scrape_days w profile (Suc idx) items (scrape_day w profile idx item st)"

definition first_state :: "world \<Rightarrow> run_state" where
  "first_state w =
     \<lparr>sm = session_manager_init (readings_at w 0), constructed = 1, delayed = 0,
      all_daily_rates = [], events = []\<rparr>"

text \<open>The run: its return value and what it did. The summary it prints and the file it saves
  at the end are left out.\<close>

definition scrape_hotel_prices ::
  "world \<Rightarrow> (date \<Rightarrow> string) \<Rightarrow> hotel_profile \<Rightarrow> date \<Rightarrow> int \<Rightarrow> error + hotel_data option \<times> event list" where
  "scrape_hotel_prices w strftime profile start_date num_days_to_scrape =
     (case urls_and_dates strftime (hotel_url profile) start_date num_days_to_scrape of
        Inl e \<Rightarrow> Inl e
      | Inr items \<Rightarrow>
          let st = scrape_days w profile 1 items (first_state w)
          in Inr (if all_daily_rates st \<noteq> []
                  then Some \<lparr>hotel_name = profile_name profile, daily_rates = all_daily_rates st\<rparr>
                  else None,
                  events st))"

text \<open>The page loads of a run, in order, each with its date: the attempts.\<close>

fun crawls :: "event list \<Rightarrow> (string \<times> string) list" where
  "crawls [] = []"
| "crawls (Crawl d u # es) = (d, u) # crawls es"
| "crawls (_ # es) = crawls es"


subsection \<open>A stub collaborator\<close>

text \<open>A crawler that answers every page load with the same text, a clock that stands still,
  random readings that are all zero (so that a delay sleeps one pause of 0.1 seconds and its
  lower bound), and a JSON library that rejects every text.\<close>

definition stub_readings :: readings where
  "stub_readings =
     \<lparr>id_time = 1756166400, id_random = 0, agent_random = 0, viewport_random = 0,
      start_clock = 1756166400\<rparr>"

definition stub_delay_readings :: delay_readings where
  "stub_delay_readings =
     \<lparr>base_random = 0, break_random = 0.5, extra_random = 0, count_random = 0,
      thinking_random = (\<lambda>k. 0)\<rparr>"

definition stub_world :: "string \<Rightarrow> world" where
  "stub_world page =
     \<lparr>arun = (\<lambda>idx url. \<lparr>success = True, extracted_content = Some page, error_message = None\<rparr>),
      time_at = (\<lambda>idx. 1756166400),
      readings_at = (\<lambda>k. stub_readings),
      delay_readings_at = (\<lambda>k. stub_delay_readings),
      loads_validate = (\<lambda>text. JSONDecodeError)\<rparr>"

definition minn_juso :: hotel_profile where
  "minn_juso =
     \<lparr>profile_name = ''Minn Juso'',
      hotel_url = ''https://www.expedia.co.jp/en/Osaka-Hotels-Minn-Juso.h18638909.Hotel-Information'',
      room_types = [''Standard Room'', ''Deluxe Room'', ''Family Room'']\<rparr>"

section \<open>The salvage parser: what it returns\<close>

subsection \<open>The loop body, case by case\<close>

lemma escape_off: "\<not> escape st \<Longrightarrow> st\<lparr>escape := False\<rparr> = st"
  by simp

lemma body_bslash: "\<not> escape st \<Longrightarrow> loop_body s i bslash st = Next (st\<lparr>escape := True\<rparr>)"
  by (simp add: loop_body_def)

lemma body_escaped:
  "escape st \<Longrightarrow> in_string st \<Longrightarrow> loop_body s i ch st = Next (st\<lparr>escape := False\<rparr>)"
  by (simp add: loop_body_def end_of_body_def Let_def)

lemma body_dquote:
  "\<not> escape st \<Longrightarrow> loop_body s i dquote st = Next (st\<lparr>in_string := \<not> in_string st\<rparr>)"
  by (simp add: loop_body_def end_of_body_def Let_def)

lemma body_in_string:
  "in_string st \<Longrightarrow> \<not> escape st \<Longrightarrow> ch \<noteq> dquote \<Longrightarrow> ch \<noteq> bslash \<Longrightarrow> loop_body s i ch st = Next st"
  by (simp add: loop_body_def end_of_body_def Let_def)

lemma body_plain:
  "\<not> in_string st \<Longrightarrow> \<not> escape st \<Longrightarrow> ch \<notin> {lbrace, rbrace, dquote, bslash} \<Longrightarrow>
   loop_body s i ch st = Next st"
  by (simp add: loop_body_def end_of_body_def Let_def)

lemma body_lbrace:
  "\<not> in_string st \<Longrightarrow> \<not> escape st \<Longrightarrow>
   loop_body s i lbrace st =
     Next (st\<lparr>start := (if brace_count st = 0 then int i else start st),
               brace_count := brace_count st + 1\<rparr>)"
  by (simp add: loop_body_def end_of_body_def Let_def)

lemma body_rbrace_idle:
  "\<not> in_string st \<Longrightarrow> \<not> escape st \<Longrightarrow> brace_count st \<le> 0 \<Longrightarrow> loop_body s i rbrace st = Next st"
  by (simp add: loop_body_def end_of_body_def Let_def)

lemma body_rbrace_inner:
  "\<not> in_string st \<Longrightarrow> \<not> escape st \<Longrightarrow> brace_count st > 1 \<Longrightarrow>
   loop_body s i rbrace st = Next (st\<lparr>brace_count := brace_count st - 1\<rparr>)"
  by (simp add: loop_body_def end_of_body_def Let_def)

lemma body_rbrace_outer:
  "\<not> in_string st \<Longrightarrow> \<not> escape st \<Longrightarrow> brace_count st = 1 \<Longrightarrow> start st \<noteq> - 1 \<Longrightarrow>
   loop_body s i rbrace st = Return (py_slice s (start st) (int i + 1))"
  by (simp add: loop_body_def end_of_body_def Let_def)

text \<open>After a backslash outside of a string: the escape flag is on for one character. A brace
  counts as it would without it; any other character passes.\<close>

lemma body_escaped_brace:
  "\<not> in_string st \<Longrightarrow> \<not> escape st \<Longrightarrow> ch = lbrace \<or> ch = rbrace \<Longrightarrow>
   loop_body s i ch (st\<lparr>escape := True\<rparr>) = loop_body s i ch st"
  by (auto simp: loop_body_def end_of_body_def Let_def)

lemma body_escaped_other:
  "\<not> in_string st \<Longrightarrow> \<not> escape st \<Longrightarrow> ch \<noteq> lbrace \<Longrightarrow> ch \<noteq> rbrace \<Longrightarrow>
   loop_body s i ch (st\<lparr>escape := True\<rparr>) = Next st"
  by (simp add: loop_body_def end_of_body_def Let_def)

lemma scan_escaped_brace:
  assumes "\<not> in_string st" "\<not> escape st" "ch = lbrace \<or> ch = rbrace"
  shows "scan_from s i st (bslash # ch # rest) = scan_from s (Suc i) st (ch # rest)"
  using assms by (simp add: body_bslash body_escaped_brace)

lemma scan_escaped_other:
  assumes "\<not> in_string st" "\<not> escape st" "ch \<noteq> lbrace" "ch \<noteq> rbrace"
  shows "scan_from s i st (bslash # ch # rest) = scan_from s (Suc (Suc i)) st rest"
  using assms by (simp add: body_bslash body_escaped_other)

subsection \<open>The scan over strings, balanced text and prose\<close>

lemma scan_str_body:
  "str_body b \<Longrightarrow> in_string st \<Longrightarrow> \<not> escape st \<Longrightarrow>
   scan_from s i st (b @ dquote # rest) =
   scan_from s (i + length b + 1) (st\<lparr>in_string := False\<rparr>) rest"
proof (induction b arbitrary: i rule: str_body.induct)
  case str_nil
  then show ?case by (simp add: body_dquote)
next
  case (str_chr c cs)
  then show ?case by (simp add: body_in_string)
next
  case (str_esc cs x)
  then show ?case by (simp add: body_bslash body_escaped escape_off)
qed

lemma scan_string:
  assumes "str_body b" "\<not> in_string st" "\<not> escape st"
  shows "scan_from s i st (dquote # b @ dquote # rest) = scan_from s (i + length b + 2) st rest"
proof -
  have "scan_from s i st (dquote # b @ dquote # rest) =
        scan_from s (Suc i) (st\<lparr>in_string := True\<rparr>) (b @ dquote # rest)"
    using assms by (simp add: body_dquote)
  also have "\<dots> = scan_from s (Suc i + length b + 1) (st\<lparr>in_string := True\<rparr>\<lparr>in_string := False\<rparr>) rest"
    using assms by (intro scan_str_body) simp_all
  also have "st\<lparr>in_string := True\<rparr>\<lparr>in_string := False\<rparr> = st"
    using assms by simp
  finally show ?thesis by simp
qed

lemma scan_open_str:
  "open_str b \<Longrightarrow> in_string st \<Longrightarrow> \<not> escape st \<Longrightarrow> scan_from s i st b = None"
proof (induction b arbitrary: i rule: open_str.induct)
  case open_nil
  then show ?case by simp
next
  case (open_chr c cs)
  then show ?case by (simp add: body_in_string)
next
  case (open_esc cs x)
  then show ?case by (simp add: body_bslash body_escaped escape_off)
next
  case open_end
  then show ?case by (simp add: body_bslash)
qed

lemma scan_open_brace:
  assumes "ob \<in> open_brace" "\<not> in_string st" "\<not> escape st"
  shows "scan_from s i st (ob @ rest) =
         scan_from s (i + length ob)
           (st\<lparr>start := (if brace_count st = 0 then int (i + length ob) - 1 else start st),
               brace_count := brace_count st + 1\<rparr>) rest"
proof -
  from assms(1) consider "ob = [lbrace]" | "ob = [bslash, lbrace]"
    by (auto simp: open_brace_def)
  then show ?thesis
  proof cases
    case 1
    with assms show ?thesis by (simp add: body_lbrace)
  next
    case 2
    have "scan_from s i st (bslash # lbrace # rest) = scan_from s (Suc i) st (lbrace # rest)"
      using assms by (intro scan_escaped_brace) simp_all
    with 2 assms show ?thesis by (simp add: body_lbrace)
  qed
qed

lemma scan_close_brace:
  assumes "cb \<in> close_brace" "\<not> in_string st" "\<not> escape st" "brace_count st > 1"
  shows "scan_from s i st (cb @ rest) =
         scan_from s (i + length cb) (st\<lparr>brace_count := brace_count st - 1\<rparr>) rest"
proof -
  from assms(1) consider "cb = [rbrace]" | "cb = [bslash, rbrace]"
    by (auto simp: close_brace_def)
  then show ?thesis
  proof cases
    case 1
    with assms show ?thesis by (simp add: body_rbrace_inner)
  next
    case 2
    have "scan_from s i st (bslash # rbrace # rest) = scan_from s (Suc i) st (rbrace # rest)"
      using assms by (intro scan_escaped_brace) simp_all
    with 2 assms show ?thesis by (simp add: body_rbrace_inner)
  qed
qed

lemma scan_balanced:
  "balanced b \<Longrightarrow> \<not> in_string st \<Longrightarrow> \<not> escape st \<Longrightarrow> brace_count st \<ge> 1 \<Longrightarrow>
   scan_from s i st (b @ rest) = scan_from s (i + length b) st rest"
proof (induction b arbitrary: i st rest rule: balanced.induct)
  case bal_nil
  then show ?case by simp
next
  case (bal_chr c cs)
  then show ?case by (simp add: body_plain)
next
  case (bal_str b cs)
  have "scan_from s i st ((dquote # b @ dquote # cs) @ rest) =
        scan_from s (i + length b + 2) st (cs @ rest)"
    using scan_string [OF bal_str.hyps(1) bal_str.prems(1,2), of s i "cs @ rest"]
    by (simp del: scan_from.simps)
  also have "\<dots> = scan_from s (i + length b + 2 + length cs) st rest"
    using bal_str.prems by (intro bal_str.IH) simp_all
  finally show ?case by (simp del: scan_from.simps add: ac_simps)
next
  case (bal_esc x cs)
  have "scan_from s i st ((bslash # x # cs) @ rest) = scan_from s (Suc (Suc i)) st (cs @ rest)"
    using scan_escaped_other [OF bal_esc.prems(1,2) bal_esc.hyps(1,2), of s i "cs @ rest"]
    by (simp del: scan_from.simps)
  also have "\<dots> = scan_from s (Suc (Suc i) + length cs) st rest"
    using bal_esc.prems by (intro bal_esc.IH) simp_all
  finally show ?case by (simp del: scan_from.simps add: ac_simps)
next
  case (bal_obj ob b cb cs)
  let ?st = "st\<lparr>brace_count := brace_count st + 1\<rparr>"
  have st: "st\<lparr>start := (if brace_count st = 0 then int (i + length ob) - 1 else start st),
               brace_count := brace_count st + 1\<rparr> = ?st"
    using bal_obj.prems by simp
  have "scan_from s i st ((ob @ b @ cb @ cs) @ rest) =
        scan_from s (i + length ob) ?st (b @ cb @ cs @ rest)"
    using scan_open_brace [OF bal_obj.hyps(1) bal_obj.prems(1,2), of s i "b @ cb @ cs @ rest"]
    by (simp only: st append_assoc)
  also have "\<dots> = scan_from s (i + length ob + length b) ?st (cb @ cs @ rest)"
    using bal_obj.prems by (intro bal_obj.IH) simp_all
  also have "\<dots> = scan_from s (i + length ob + length b + length cb)
                     (?st\<lparr>brace_count := brace_count ?st - 1\<rparr>) (cs @ rest)"
    using bal_obj.prems bal_obj.hyps(3) by (intro scan_close_brace) simp_all
  also have "?st\<lparr>brace_count := brace_count ?st - 1\<rparr> = st"
    by simp
  also have "scan_from s (i + length ob + length b + length cb) st (cs @ rest)
             = scan_from s (i + length ob + length b + length cb + length cs) st rest"
    using bal_obj.prems by (intro bal_obj.IH) simp_all
  finally show ?case by (simp del: scan_from.simps add: ac_simps)
qed

lemma scan_quiet_prose:
  "quiet_prose p \<Longrightarrow> \<not> in_string st \<Longrightarrow> \<not> escape st \<Longrightarrow> brace_count st = 0 \<Longrightarrow>
   scan_from s i st (p @ rest) = scan_from s (i + length p) st rest"
proof (induction p arbitrary: i rule: quiet_prose.induct)
  case prose_nil
  then show ?case by simp
next
  case (prose_chr c cs)
  show ?case
  proof (cases "c = rbrace")
    case True
    with prose_chr show ?thesis by (simp add: body_rbrace_idle)
  next
    case False
    with prose_chr show ?thesis by (simp add: body_plain)
  qed
next
  case (prose_str b cs)
  have "scan_from s i st ((dquote # b @ dquote # cs) @ rest) =
        scan_from s (i + length b + 2) st (cs @ rest)"
    using scan_string [OF prose_str.hyps(1) prose_str.prems(1,2), of s i "cs @ rest"]
    by (simp del: scan_from.simps)
  also have "\<dots> = scan_from s (i + length b + 2 + length cs) st rest"
    using prose_str.prems by (intro prose_str.IH) simp_all
  finally show ?case by (simp del: scan_from.simps add: ac_simps)
next
  case (prose_esc x cs)
  have "scan_from s i st ((bslash # x # cs) @ rest) = scan_from s (Suc (Suc i)) st (cs @ rest)"
  proof (cases "x = rbrace")
    case True
    have "scan_from s i st (bslash # rbrace # cs @ rest) = scan_from s (Suc i) st (rbrace # cs @ rest)"
      using prose_esc.prems by (intro scan_escaped_brace) simp_all
    with True prose_esc.prems show ?thesis by (simp add: body_rbrace_idle)
  next
    case False
    with scan_escaped_other [OF prose_esc.prems(1,2) prose_esc.hyps(1), of s i "cs @ rest"]
    show ?thesis by (simp del: scan_from.simps)
  qed
  also have "\<dots> = scan_from s (Suc (Suc i) + length cs) st rest"
    using prose_esc.prems by (intro prose_esc.IH) simp_all
  finally show ?case by (simp del: scan_from.simps add: ac_simps)
qed

lemma scan_unclosed:
  "unclosed u \<Longrightarrow> \<not> in_string st \<Longrightarrow> \<not> escape st \<Longrightarrow> brace_count st \<ge> 1 \<Longrightarrow>
   scan_from s i st u = None"
proof (induction u arbitrary: i st rule: unclosed.induct)
  case unclosed_nil
  then show ?case by simp
next
  case unclosed_bs
  then show ?case by (simp add: body_bslash)
next
  case (unclosed_str b)
  have "scan_from s i st (dquote # b) = scan_from s (Suc i) (st\<lparr>in_string := True\<rparr>) b"
    using unclosed_str.prems by (simp add: body_dquote)
  also have "\<dots> = None"
    using unclosed_str.hyps unclosed_str.prems by (intro scan_open_str) simp_all
  finally show ?case .
next
  case (unclosed_open ob u)
  let ?st = "st\<lparr>brace_count := brace_count st + 1\<rparr>"
  have st: "st\<lparr>start := (if brace_count st = 0 then int (i + length ob) - 1 else start st),
               brace_count := brace_count st + 1\<rparr> = ?st"
    using unclosed_open.prems by simp
  have "scan_from s i st (ob @ u) = scan_from s (i + length ob) ?st u"
    using scan_open_brace [OF unclosed_open.hyps(1) unclosed_open.prems(1,2), of s i u]
    by (simp only: st)
  also have "\<dots> = None"
    using unclosed_open.prems by (intro unclosed_open.IH) simp_all
  finally show ?case .
next
  case (unclosed_bal b u)
  have "scan_from s i st (b @ u) = scan_from s (i + length b) st u"
    using unclosed_bal by (intro scan_balanced) simp_all
  also have "\<dots> = None"
    using unclosed_bal.prems by (intro unclosed_bal.IH) simp_all
  finally show ?case .
qed

subsection \<open>Stripping and slicing\<close>

lemma not_space_braces [simp]:
  "\<not> py_isspace lbrace" "\<not> py_isspace rbrace" "\<not> py_isspace dquote" "\<not> py_isspace bslash"
  by (simp_all add: py_isspace_def)

lemma dropWhile_keeps: "\<not> P a \<Longrightarrow> dropWhile P (xs @ a # ys) = dropWhile P xs @ a # ys"
  by (induction xs) simp_all

lemma strip_around:
  assumes "\<not> py_isspace a" "\<not> py_isspace z"
  shows "strip (p @ a # m @ z # sfx) =
         dropWhile py_isspace p @ a # m @ z # rev (dropWhile py_isspace (rev sfx))"
proof -
  have "dropWhile py_isspace (p @ a # m @ z # sfx) = dropWhile py_isspace p @ a # m @ z # sfx"
    using assms(1) by (rule dropWhile_keeps)
  moreover have "dropWhile py_isspace (rev sfx @ z # rev m @ a # rev (dropWhile py_isspace p)) =
                 dropWhile py_isspace (rev sfx) @ z # rev m @ a # rev (dropWhile py_isspace p)"
    using assms(2) by (rule dropWhile_keeps)
  ultimately show ?thesis by (simp add: strip_def)
qed

lemma rstrip_split: "rev (dropWhile P (rev xs)) @ rev (takeWhile P (rev xs)) = xs"
  using arg_cong [OF takeWhile_dropWhile_id [of P "rev xs"], of rev]
  by (simp del: takeWhile_dropWhile_id)

lemma strip_prefix: "\<exists>w. dropWhile py_isspace t = strip t @ w"
  using rstrip_split [of py_isspace "dropWhile py_isspace t", symmetric]
  unfolding strip_def by (rule exI)

lemma quiet_prose_dropWhile: "quiet_prose p \<Longrightarrow> quiet_prose (dropWhile py_isspace p)"
  by (induction p rule: quiet_prose.induct) (auto intro: quiet_prose.intros)

lemma py_slice_middle:
  "py_slice (p @ m @ sfx) (int (length p)) (int (length p + length m)) = m"
  by (simp add: py_slice_def slice_index_def)

subsection \<open>The scan over whole texts\<close>

lemma scan_object:
  assumes "balanced b" "\<not> in_string st" "\<not> escape st" "brace_count st = 0"
  shows "scan_from (p @ lbrace # b @ rbrace # sfx) (length p) st (lbrace # b @ rbrace # sfx) =
         Some (lbrace # b @ [rbrace])"
proof -
  let ?s = "p @ lbrace # b @ rbrace # sfx"
  let ?st = "st\<lparr>start := int (length p), brace_count := 1\<rparr>"
  have "scan_from ?s (length p) st (lbrace # b @ rbrace # sfx) =
        scan_from ?s (Suc (length p)) ?st (b @ rbrace # sfx)"
    using assms by (simp add: body_lbrace)
  also have "\<dots> = scan_from ?s (Suc (length p) + length b) ?st (rbrace # sfx)"
    using assms by (intro scan_balanced) simp_all
  also have "\<dots> = Some (py_slice ?s (int (length p)) (int (Suc (length p) + length b) + 1))"
    by (simp add: body_rbrace_outer assms)
  also have "py_slice ?s (int (length p)) (int (Suc (length p) + length b) + 1) = lbrace # b @ [rbrace]"
    using py_slice_middle [of p "lbrace # b @ [rbrace]" sfx] by (simp add: ac_simps)
  finally show ?thesis .
qed

text \<open>Prose, with or without a backslash at its end, brings the scan to the brace that
  follows it as it started.\<close>

lemma scan_prose_brace:
  assumes "prose p" "\<not> in_string st" "\<not> escape st" "brace_count st = 0"
  shows "scan_from s i st (p @ lbrace # rest) = scan_from s (i + length p) st (lbrace # rest)"
proof -
  from assms(1) consider "quiet_prose p" | q where "p = q @ [bslash]" "quiet_prose q"
    by (auto simp: prose_def)
  then show ?thesis
  proof cases
    case 1
    then show ?thesis using assms by (intro scan_quiet_prose)
  next
    case 2
    have "scan_from s i st (q @ bslash # lbrace # rest)
          = scan_from s (i + length q) st (bslash # lbrace # rest)"
      using 2 assms by (intro scan_quiet_prose)
    also have "\<dots> = scan_from s (Suc (i + length q)) st (lbrace # rest)"
      using assms by (intro scan_escaped_brace) simp_all
    finally show ?thesis using 2 by (simp del: scan_from.simps)
  qed
qed

lemma prose_dropWhile: "prose p \<Longrightarrow> prose (dropWhile py_isspace p)"
proof -
  assume "prose p"
  then consider "quiet_prose p" | q where "p = q @ [bslash]" "quiet_prose q"
    by (auto simp: prose_def)
  then show ?thesis
  proof cases
    case 1
    then show ?thesis by (simp add: prose_def quiet_prose_dropWhile)
  next
    case 2
    have "dropWhile py_isspace (q @ bslash # []) = dropWhile py_isspace q @ bslash # []"
      by (rule dropWhile_keeps) simp
    with 2 show ?thesis using quiet_prose_dropWhile [of q] by (auto simp: prose_def)
  qed
qed

lemma extract_prose_object:
  assumes "prose p" "balanced b"
  shows "extract_first_json_object (p @ lbrace # b @ rbrace # sfx) = Some (lbrace # b @ [rbrace])"
proof -
  let ?p = "dropWhile py_isspace p"
  let ?x = "rev (dropWhile py_isspace (rev sfx))"
  let ?s = "?p @ lbrace # b @ rbrace # ?x"
  have s: "strip (p @ lbrace # b @ rbrace # sfx) = ?s"
    by (rule strip_around) simp_all
  have "scan_from ?s 0 scan_init ?s = scan_from ?s (0 + length ?p) scan_init (lbrace # b @ rbrace # ?x)"
    using assms(1) by (intro scan_prose_brace prose_dropWhile) (simp_all add: scan_init_def)
  also have "\<dots> = Some (lbrace # b @ [rbrace])"
    using scan_object [OF assms(2), of scan_init ?p ?x] by (simp add: scan_init_def)
  finally show ?thesis
    by (simp add: extract_first_json_object_def s del: scan_from.simps)
qed

lemma scan_from_prefix_None:
  "scan_from s i st (u @ w) = None \<Longrightarrow> scan_from s' i st u = None"
proof (induction u arbitrary: i st)
  case Nil
  then show ?case by simp
next
  case (Cons c u)
  show ?case
  proof (cases "loop_body s i c st")
    case (Return r)
    with Cons.prems show ?thesis by simp
  next
    case (Next st')
    have "loop_body s' i c st = Next st'"
      using Next by (auto simp: loop_body_def end_of_body_def Let_def split: if_splits)
    with Cons Next show ?thesis by simp
  qed
qed

lemma extract_None_lstrip:
  assumes "\<And>s. scan_from s 0 scan_init (dropWhile py_isspace t) = None"
  shows "extract_first_json_object t = None"
proof -
  obtain w where w: "dropWhile py_isspace t = strip t @ w"
    using strip_prefix [of t] by auto
  have "scan_from (strip t) 0 scan_init (strip t @ w) = None"
    using assms [of "strip t"] w by simp
  then have "scan_from (strip t) 0 scan_init (strip t) = None"
    by (rule scan_from_prefix_None)
  then show ?thesis
    by (simp add: extract_first_json_object_def)
qed

lemma extract_unclosed:
  assumes "prose p" "unclosed u"
  shows "extract_first_json_object (p @ lbrace # u) = None"
proof (rule extract_None_lstrip)
  fix s
  let ?p = "dropWhile py_isspace p"
  have d: "dropWhile py_isspace (p @ lbrace # u) = ?p @ lbrace # u"
    by (rule dropWhile_keeps) simp
  let ?st = "scan_init\<lparr>start := int (length ?p), brace_count := 1\<rparr>"
  have "scan_from s 0 scan_init (?p @ lbrace # u) = scan_from s (0 + length ?p) scan_init (lbrace # u)"
    using assms(1) by (intro scan_prose_brace prose_dropWhile) (simp_all add: scan_init_def)
  also have "\<dots> = scan_from s (Suc (length ?p)) ?st u"
    by (simp add: body_lbrace scan_init_def)
  also have "\<dots> = None"
    using assms(2) by (intro scan_unclosed) (simp_all add: scan_init_def)
  finally show "scan_from s 0 scan_init (dropWhile py_isspace (p @ lbrace # u)) = None"
    using d by simp
qed

text \<open>A text with no opening brace outside of a string: prose, and at its end possibly a
  backslash or a string that is never closed.\<close>

lemma extract_no_object:
  assumes "quiet_prose q" "e = [] \<or> e = [bslash] \<or> (\<exists>b. e = dquote # b \<and> open_str b)"
  shows "extract_first_json_object (q @ e) = None"
proof (rule extract_None_lstrip)
  fix s
  let ?q = "dropWhile py_isspace q"
  have d: "dropWhile py_isspace (q @ e) = ?q @ e"
  proof (cases e)
    case Nil
    then show ?thesis by simp
  next
    case (Cons a e')
    with assms(2) have "\<not> py_isspace a" by auto
    with Cons show ?thesis by (simp add: dropWhile_keeps)
  qed
  have q: "quiet_prose ?q" using assms(1) by (rule quiet_prose_dropWhile)
  have "scan_from s 0 scan_init (?q @ e) = scan_from s (0 + length ?q) scan_init e"
    using q by (intro scan_quiet_prose) (simp_all add: scan_init_def)
  also have "\<dots> = None"
  proof -
    from assms(2) consider "e = []" | "e = [bslash]" | b where "e = dquote # b" "open_str b"
      by blast
    then show ?thesis
    proof cases
      case 1
      then show ?thesis by simp
    next
      case 2
      then show ?thesis by (simp add: body_bslash scan_init_def)
    next
      case 3
      have "scan_from s (0 + length ?q) scan_init (dquote # b)
            = scan_from s (Suc (0 + length ?q)) (scan_init\<lparr>in_string := True\<rparr>) b"
        by (simp add: body_dquote scan_init_def)
      also have "\<dots> = None"
        using 3(2) by (intro scan_open_str) (simp_all add: scan_init_def)
      finally show ?thesis using 3(1) by simp
    qed
  qed
  finally show "scan_from s 0 scan_init (dropWhile py_isspace (q @ e)) = None"
    using d by simp
qed

lemma loop_body_Return:
  "loop_body s i ch st = Return r \<Longrightarrow>
   ch = rbrace \<and> brace_count st > 0 \<and> r = py_slice s (start st) (int i + 1)"
  by (auto simp: loop_body_def end_of_body_def Let_def split: if_splits)

lemma loop_body_Next_start:
  "loop_body s i ch st = Next st' \<Longrightarrow> brace_count st' > 0 \<Longrightarrow>
   (brace_count st > 0 \<and> start st' = start st) \<or> (ch = lbrace \<and> start st' = int i)"
  by (auto simp: loop_body_def end_of_body_def Let_def split: if_splits)

lemma scan_from_Some:
  "scan_from s i st rest = Some r \<Longrightarrow> s = pre @ rest \<Longrightarrow> i = length pre \<Longrightarrow>
   (brace_count st > 0 \<longrightarrow> (\<exists>p0 m0. pre = p0 @ lbrace # m0 \<and> start st = int (length p0))) \<Longrightarrow>
   \<exists>p m sfx. s = p @ lbrace # m @ rbrace # sfx \<and> r = lbrace # m @ [rbrace]"
proof (induction rest arbitrary: i st pre)
  case Nil
  then show ?case by simp
next
  case (Cons ch rest)
  show ?case
  proof (cases "loop_body s i ch st")
    case (Return r')
    then have ch: "ch = rbrace" and pos: "brace_count st > 0"
      and r': "r' = py_slice s (start st) (int i + 1)"
      using loop_body_Return by blast+
    from pos Cons.prems obtain p0 m0 where pre: "pre = p0 @ lbrace # m0" "start st = int (length p0)"
      by blast
    have s: "s = p0 @ lbrace # m0 @ rbrace # rest"
      using Cons.prems(2) pre ch by simp
    have "r' = lbrace # m0 @ [rbrace]"
      using py_slice_middle [of p0 "lbrace # m0 @ [rbrace]" rest] r' pre Cons.prems(3) s
      by (simp add: ac_simps)
    moreover have "r = r'" using Cons.prems(1) Return by simp
    ultimately show ?thesis using s by blast
  next
    case (Next st')
    have inv: "brace_count st' > 0 \<longrightarrow>
               (\<exists>p0 m0. pre @ [ch] = p0 @ lbrace # m0 \<and> start st' = int (length p0))"
    proof
      assume "brace_count st' > 0"
      with Next consider "brace_count st > 0" "start st' = start st"
        | "ch = lbrace" "start st' = int i"
        using loop_body_Next_start by blast
      then show "\<exists>p0 m0. pre @ [ch] = p0 @ lbrace # m0 \<and> start st' = int (length p0)"
      proof cases
        case 1
        with Cons.prems obtain p0 m0 where "pre = p0 @ lbrace # m0" "start st = int (length p0)"
          by blast
        with 1 have "pre @ [ch] = p0 @ lbrace # (m0 @ [ch]) \<and> start st' = int (length p0)"
          by simp
        then show ?thesis by blast
      next
        case 2
        with Cons.prems have "pre @ [ch] = pre @ lbrace # [] \<and> start st' = int (length pre)"
          by simp
        then show ?thesis by blast
      qed
    qed
    have "scan_from s (Suc i) st' rest = Some r"
      using Cons.prems(1) Next by simp
    moreover have "s = (pre @ [ch]) @ rest" using Cons.prems(2) by simp
    moreover have "Suc i = length (pre @ [ch])" using Cons.prems(3) by simp
    ultimately show ?thesis using inv by (rule Cons.IH)
  qed
qed

lemma loop_body_idle:
  "ch \<noteq> lbrace \<Longrightarrow> brace_count st \<le> 0 \<Longrightarrow>
   \<exists>st'. loop_body s i ch st = Next st' \<and> brace_count st' = brace_count st"
  by (simp add: loop_body_def end_of_body_def Let_def)

lemma scan_no_lbrace:
  "lbrace \<notin> set rest \<Longrightarrow> brace_count st \<le> 0 \<Longrightarrow> scan_from s i st rest = None"
proof (induction rest arbitrary: i st)
  case Nil
  then show ?case by simp
next
  case (Cons ch rest)
  obtain st' where "loop_body s i ch st = Next st'" "brace_count st' = brace_count st"
    using Cons.prems loop_body_idle [of ch st s i] by auto
  with Cons show ?case by simp
qed

lemma set_strip: "set (strip t) \<subseteq> set t"
proof -
  have "set (strip t) \<subseteq> set (dropWhile py_isspace t)"
    unfolding strip_def set_rev using set_dropWhileD by fastforce
  also have "\<dots> \<subseteq> set t" using set_dropWhileD by fastforce
  finally show ?thesis .
qed

subsection \<open>The claims about the parser\<close>

lemma prose_rbraces: "prose (replicate n rbrace)"
proof -
  have "quiet_prose (replicate n rbrace)"
    by (induction n) (auto intro: quiet_prose.intros)
  then show ?thesis by (simp add: prose_def)
qed

lemma extract_no_lbrace: "lbrace \<notin> set text \<Longrightarrow> extract_first_json_object text = None"
proof -
  assume "lbrace \<notin> set text"
  then have "lbrace \<notin> set (strip text)" using set_strip by blast
  then have "scan_from (strip text) 0 scan_init (strip text) = None"
    by (intro scan_no_lbrace) (simp_all add: scan_init_def)
  then show ?thesis by (simp add: extract_first_json_object_def)
qed

lemma extract_Some_shape:
  assumes "extract_first_json_object text = Some r"
  shows "\<exists>p m sfx. strip text = p @ r @ sfx \<and> r = lbrace # m @ [rbrace]"
proof -
  have "scan_from (strip text) 0 scan_init (strip text) = Some r"
    using assms by (simp add: extract_first_json_object_def Let_def split: if_splits)
  then have "\<exists>p m sfx. strip text = p @ lbrace # m @ rbrace # sfx \<and> r = lbrace # m @ [rbrace]"
    by (rule scan_from_Some [where pre = "[]"]) (simp_all add: scan_init_def)
  then obtain p m sfx where "strip text = p @ lbrace # m @ rbrace # sfx" "r = lbrace # m @ [rbrace]"
    by blast
  then have "strip text = p @ r @ sfx \<and> r = lbrace # m @ [rbrace]" by simp
  then show ?thesis by blast
qed

text \<open>
  Claim C1, as the code has it. A text made of prose without braces in which every
  double-quoted string is closed, then one object with balanced braces, then any text
  without braces: the parser returns exactly the object. A text in which the first opening
  brace outside of a string is never closed (only balanced text, further opening braces and,
  at the very end, a string that is never closed or a backslash follow it): the parser
  returns none, as it does for a text with no opening brace outside of a string. (The claim
  asks for the first with any prose and for the second with every text whose braces are
  unbalanced.)
\<close>

theorem salvage_parse_object:
  "(prose p \<and> lbrace \<notin> set p \<and> rbrace \<notin> set p \<and> balanced b \<and>
    lbrace \<notin> set sfx \<and> rbrace \<notin> set sfx \<longrightarrow>
      extract_first_json_object (p @ lbrace # b @ rbrace # sfx) = Some (lbrace # b @ [rbrace]))
   \<and> (prose p \<and> unclosed u \<longrightarrow> extract_first_json_object (p @ lbrace # u) = None)
   \<and> (quiet_prose q \<and> (e = [] \<or> e = [bslash] \<or> (\<exists>b. e = dquote # b \<and> open_str b)) \<longrightarrow>
        extract_first_json_object (q @ e) = None)"
proof (intro conjI impI)
  assume "prose p \<and> lbrace \<notin> set p \<and> rbrace \<notin> set p \<and> balanced b \<and>
    lbrace \<notin> set sfx \<and> rbrace \<notin> set sfx"
  then show "extract_first_json_object (p @ lbrace # b @ rbrace # sfx) = Some (lbrace # b @ [rbrace])"
    by (intro extract_prose_object) simp_all
next
  assume "prose p \<and> unclosed u"
  then show "extract_first_json_object (p @ lbrace # u) = None"
    by (intro extract_unclosed) simp_all
next
  assume "quiet_prose q \<and> (e = [] \<or> e = [bslash] \<or> (\<exists>b. e = dquote # b \<and> open_str b))"
  then show "extract_first_json_object (q @ e) = None"
    by (intro extract_no_object) simp_all
qed

lemma str_body_a: "str_body ''a''"
  by (intro str_chr str_nil) simp_all

lemma prose_here: "prose ([CHR ''C'', bslash, CHR '' ''] @ dquote # ''a'' @ dquote # '': '')"
proof -
  have 1: "quiet_prose '': ''" by (intro prose_chr prose_nil) simp_all
  have 2: "quiet_prose (dquote # ''a'' @ dquote # '': '')" by (rule prose_str [OF str_body_a 1])
  have 3: "quiet_prose (bslash # CHR '' '' # (dquote # ''a'' @ dquote # '': ''))"
    by (rule prose_esc [OF _ 2]) simp
  have "quiet_prose (CHR ''C'' # bslash # CHR '' '' # (dquote # ''a'' @ dquote # '': ''))"
    by (rule prose_chr [OF _ 3]) simp
  then show ?thesis by (simp add: prose_def)
qed

text \<open>The hypotheses of C1 hold at a prose with a backslash and a quoted word, an object with
  one member, a tail that opens a string and never closes it, and a text of one closing
  brace.\<close>

theorem salvage_parse_object_witness:
  "prose ([CHR ''C'', bslash, CHR '' ''] @ dquote # ''a'' @ dquote # '': '')
   \<and> balanced (dquote # ''a'' @ dquote # '':1'')
   \<and> unclosed (''x'' @ dquote # ''y'')
   \<and> quiet_prose ''}''
   \<and> extract_first_json_object
        (([CHR ''C'', bslash, CHR '' ''] @ dquote # ''a'' @ dquote # '': '')
          @ lbrace # (dquote # ''a'' @ dquote # '':1'') @ rbrace # '' ok'')
      = Some (lbrace # (dquote # ''a'' @ dquote # '':1'') @ [rbrace])
   \<and> extract_first_json_object
        (([CHR ''C'', bslash, CHR '' ''] @ dquote # ''a'' @ dquote # '': '')
          @ lbrace # (''x'' @ dquote # ''y'')) = None
   \<and> extract_first_json_object (''}'' @ []) = None"
proof -
  let ?p = "[CHR ''C'', bslash, CHR '' ''] @ dquote # ''a'' @ dquote # '': ''"
  have p: "prose ?p" by (rule prose_here)
  have b1: "balanced '':1''" by (intro bal_chr bal_nil) simp_all
  have b: "balanced (dquote # ''a'' @ dquote # '':1'')"
    by (rule bal_str [OF str_body_a b1])
  have x: "balanced ''x''" by (intro bal_chr bal_nil) simp_all
  have "open_str ''y''" by (intro open_chr open_nil) simp_all
  then have "unclosed (dquote # ''y'')" by (rule unclosed_str)
  with x have u: "unclosed (''x'' @ dquote # ''y'')" by (rule unclosed_bal)
  have q: "quiet_prose ''}''" by (intro prose_chr prose_nil) simp_all
  have nb: "lbrace \<notin> set ?p" "rbrace \<notin> set ?p"
    "lbrace \<notin> set '' ok''" "rbrace \<notin> set '' ok''" by simp_all
  show ?thesis
    using salvage_parse_object [of ?p "dquote # ''a'' @ dquote # '':1''" "'' ok''"
        "''x'' @ dquote # ''y''" "''}''" "[]"] p b u q nb
    by blast
qed

text \<open>
  C1 as stated fails twice: an open double quote in the prose hides the object, and a text with
  more opening than closing braces still gives its first object.
\<close>

theorem salvage_parse_counterexample:
  "lbrace \<notin> set (''say '' @ [dquote]) \<and> rbrace \<notin> set (''say '' @ [dquote])
   \<and> extract_first_json_object ((''say '' @ [dquote]) @ ''{}'') = None
   \<and> occurrences lbrace ''{}{'' \<noteq> occurrences rbrace ''{}{''
   \<and> extract_first_json_object ''{}{'' = Some ''{}''"
  by (simp add: extract_first_json_object_def strip_def py_isspace_def scan_init_def
      loop_body_def end_of_body_def py_slice_def slice_index_def occurrences_def)



text \<open>
  Claim C10. The empty text and a text without opening brace give none; a value that is
  returned is a piece of the stripped text that begins with an opening and ends with a closing
  brace; closing braces in front of the first object are skipped, so such a text, unbalanced as
  a whole, still gives its object.
\<close>

theorem salvage_parse_edges:
  "extract_first_json_object [] = None
   \<and> (lbrace \<notin> set text \<longrightarrow> extract_first_json_object text = None)
   \<and> (extract_first_json_object text = Some r \<longrightarrow>
        (\<exists>p m sfx. strip text = p @ r @ sfx \<and> r = lbrace # m @ [rbrace]))
   \<and> (balanced b \<longrightarrow>
        extract_first_json_object (replicate n rbrace @ lbrace # b @ rbrace # sfx)
        = Some (lbrace # b @ [rbrace]))"
  using extract_no_lbrace [of "text"] extract_Some_shape [of "text" r]
    extract_prose_object [OF prose_rbraces, of b n sfx]
  by (simp add: extract_first_json_object_def)

theorem salvage_parse_edges_witness:
  "lbrace \<notin> set ''no object here }''
   \<and> extract_first_json_object ''no object here }'' = None
   \<and> balanced ''a''
   \<and> extract_first_json_object (replicate 2 rbrace @ lbrace # ''a'' @ rbrace # '' {'') = Some ''{a}''
   \<and> (\<exists>p m sfx. strip (replicate 2 rbrace @ lbrace # ''a'' @ rbrace # '' {'') = p @ ''{a}'' @ sfx
        \<and> ''{a}'' = lbrace # m @ [rbrace])"
proof -
  have b: "balanced ''a''" by (intro bal_chr bal_nil) simp_all
  have n: "lbrace \<notin> set ''no object here }''" by simp
  from salvage_parse_edges [of "''no object here }''" "''{a}''" "''a''" 2 "'' {''"] b n
  have 1: "extract_first_json_object ''no object here }'' = None"
    and 2: "extract_first_json_object (replicate 2 rbrace @ lbrace # ''a'' @ rbrace # '' {'') = Some ''{a}''"
    by simp_all
  from salvage_parse_edges [of "replicate 2 rbrace @ lbrace # ''a'' @ rbrace # '' {''" "''{a}''" "''a''" 2 "'' {''"] 2
  have 3: "\<exists>p m sfx. strip (replicate 2 rbrace @ lbrace # ''a'' @ rbrace # '' {'') = p @ ''{a}'' @ sfx
        \<and> ''{a}'' = lbrace # m @ [rbrace]"
    by blast
  show ?thesis using b n 1 2 3 by blast
qed

section \<open>The session manager: rotation\<close>

text \<open>
  Claim C5. \<open>should_rotate_session\<close> is true exactly when the request count has reached the
  limit of 10 or the session is at least 20 minutes old; one request short of the limit and
  younger than that, the session does not rotate, and it does after the next
  \<open>increment_request\<close>; at the limit it rotates.
\<close>

theorem rotation_trigger:
  "request_limit = 10 \<and> time_limit = 20 * 60
   \<and> should_rotate_session mgr now
       = (request_count mgr \<ge> request_limit \<or> now - start_time mgr \<ge> time_limit)
   \<and> (request_count mgr = request_limit - 1 \<and> now - start_time mgr < time_limit \<longrightarrow>
        \<not> should_rotate_session mgr now \<and> should_rotate_session (increment_request mgr) now)
   \<and> (request_count mgr = request_limit \<longrightarrow> should_rotate_session mgr now)"
  by (simp add: should_rotate_session_def increment_request_def request_limit_def time_limit_def)

theorem rotation_trigger_witness:
  "request_count (session_manager_init stub_readings\<lparr>request_count := 9\<rparr>) = request_limit - 1
   \<and> 1756166500 - start_time (session_manager_init stub_readings\<lparr>request_count := 9\<rparr>) < time_limit
   \<and> \<not> should_rotate_session (session_manager_init stub_readings\<lparr>request_count := 9\<rparr>) 1756166500
   \<and> should_rotate_session
        (increment_request (session_manager_init stub_readings\<lparr>request_count := 9\<rparr>)) 1756166500
   \<and> request_count (increment_request (session_manager_init stub_readings\<lparr>request_count := 9\<rparr>))
       = request_limit"
proof -
  let ?m = "session_manager_init stub_readings\<lparr>request_count := 9\<rparr>"
  have a: "request_count ?m = request_limit - 1" by (simp add: request_limit_def)
  have b: "1756166500 - start_time ?m < time_limit"
    by (simp add: session_manager_init_def stub_readings_def time_limit_def)
  have c: "request_count (increment_request ?m) = request_limit"
    by (simp add: increment_request_def request_limit_def)
  from rotation_trigger [of ?m 1756166500] a b c show ?thesis by blast
qed

subsection \<open>Session identifiers\<close>

text \<open>The decimal rendering of an integer determines it, and the number drawn for an identifier
  takes four digits: two identifiers are equal only if they were built from the same second
  and the same number.\<close>

declare str_nat.simps [simp del]

lemma digit_char_inj: "a < 10 \<Longrightarrow> b < 10 \<Longrightarrow> digit_char a = digit_char b \<Longrightarrow> a = b"
proof -
  assume a: "a < 10" and b: "b < 10" and e: "digit_char a = digit_char b"
  have d: "distinct ''0123456789''" by simp
  have "a < length ''0123456789''" "b < length ''0123456789''" using a b by simp_all
  with d e show "a = b" by (simp only: digit_char_def nth_eq_iff_index_eq)
qed

lemma digit_char_digit: "a < 10 \<Longrightarrow> digit_char a \<in> set ''0123456789''"
  unfolding digit_char_def by (rule nth_mem) simp

lemma str_nat_small: "n < 10 \<Longrightarrow> str_nat n = [digit_char n]"
  by (subst str_nat.simps) simp

lemma str_nat_big: "\<not> n < 10 \<Longrightarrow> str_nat n = str_nat (n div 10) @ [digit_char (n mod 10)]"
  by (subst str_nat.simps) simp

lemma str_nat_not_Nil: "str_nat n \<noteq> []"
  by (cases "n < 10") (simp_all add: str_nat_small str_nat_big)

lemma str_nat_digits: "set (str_nat n) \<subseteq> set ''0123456789''"
proof (induction n rule: str_nat.induct)
  case (1 n)
  show ?case
  proof (cases "n < 10")
    case True
    then show ?thesis using digit_char_digit [of n] by (simp add: str_nat_small)
  next
    case False
    have "n mod 10 < 10" by simp
    then have "digit_char (n mod 10) \<in> set ''0123456789''" by (rule digit_char_digit)
    with 1 False show ?thesis by (simp add: str_nat_big)
  qed
qed

lemma str_nat_inj: "str_nat n = str_nat m \<Longrightarrow> n = m"
proof (induction n arbitrary: m rule: str_nat.induct)
  case (1 n)
  show ?case
  proof (cases "n < 10")
    case n: True
    show ?thesis
    proof (cases "m < 10")
      case True
      with n 1 show ?thesis by (simp add: str_nat_small digit_char_inj)
    next
      case False
      with n 1 show ?thesis using str_nat_not_Nil [of "m div 10"]
        by (simp add: str_nat_small str_nat_big)
    qed
  next
    case n: False
    show ?thesis
    proof (cases "m < 10")
      case True
      with n 1 show ?thesis using str_nat_not_Nil [of "n div 10"]
        by (simp add: str_nat_small str_nat_big)
    next
      case False
      with n 1 have e: "str_nat (n div 10) = str_nat (m div 10)"
        and d: "digit_char (n mod 10) = digit_char (m mod 10)"
        by (simp_all add: str_nat_big)
      from 1(1) [OF n e] have "n div 10 = m div 10" .
      moreover from d have "n mod 10 = m mod 10" by (intro digit_char_inj) simp_all
      ultimately show ?thesis by (metis div_mult_mod_eq)
    qed
  qed
qed

lemma str_int_inj: "str_int a = str_int b \<Longrightarrow> a = b"
proof -
  assume e: "str_int a = str_int b"
  have nm: "CHR ''-'' \<notin> set (str_nat k)" for k
    using str_nat_digits [of k] by auto
  have hd: "hd (str_nat k) \<noteq> CHR ''-''" for k
    using nm [of k] str_nat_not_Nil [of k] by (cases "str_nat k") auto
  show "a = b"
  proof (cases "a < 0")
    case a: True
    show ?thesis
    proof (cases "b < 0")
      case True
      with a e have "nat (- a) = nat (- b)" by (simp add: str_int_def str_nat_inj)
      with a True show ?thesis by simp
    next
      case False
      with a e have "CHR ''-'' # str_nat (nat (- a)) = str_nat (nat b)" by (simp add: str_int_def)
      then have "hd (str_nat (nat b)) = CHR ''-''" by (metis list.sel(1))
      with hd show ?thesis by blast
    qed
  next
    case a: False
    show ?thesis
    proof (cases "b < 0")
      case True
      with a e have "str_nat (nat a) = CHR ''-'' # str_nat (nat (- b))" by (simp add: str_int_def)
      then have "hd (str_nat (nat a)) = CHR ''-''" by (metis list.sel(1))
      with hd show ?thesis by blast
    next
      case False
      with a e have "nat a = nat b" by (simp add: str_int_def str_nat_inj)
      with a False show ?thesis by simp
    qed
  qed
qed

lemma str_nat_four: "1000 \<le> n \<Longrightarrow> n < 10000 \<Longrightarrow> length (str_nat n) = 4"
proof -
  assume n: "1000 \<le> n" "n < 10000"
  have a: "\<not> n < 10" "\<not> n div 10 < 10" "\<not> n div 10 div 10 < 10" "n div 10 div 10 div 10 < 10"
    using n by simp_all
  show ?thesis
    by (simp only: str_nat_big [OF a(1)] str_nat_big [OF a(2)] str_nat_big [OF a(3)]
        str_nat_small [OF a(4)]) simp
qed

lemma randint_four: "length (str_int (random_randint 1000 9999 r)) = 4"
proof -
  have "random_randint 1000 9999 r = int (1000 + r mod 9000)"
    by (simp add: random_randint_def)
  then have "str_int (random_randint 1000 9999 r) = str_nat (1000 + r mod 9000)"
    by (simp only: str_int_def nat_int) simp
  moreover have "length (str_nat (1000 + r mod 9000)) = 4"
    by (rule str_nat_four) simp_all
  ultimately show ?thesis by simp
qed

lemma session_id_eq_iff:
  "session_id (session_manager_init rd) = session_id (session_manager_init rd0)
   \<longleftrightarrow> py_int_of_float (id_time rd) = py_int_of_float (id_time rd0)
       \<and> id_random rd mod 9000 = id_random rd0 mod 9000"
proof
  assume e: "session_id (session_manager_init rd) = session_id (session_manager_init rd0)"
  let ?a = "str_int (py_int_of_float (id_time rd))"
  let ?c = "str_int (py_int_of_float (id_time rd0))"
  let ?b = "str_int (random_randint 1000 9999 (id_random rd))"
  let ?d = "str_int (random_randint 1000 9999 (id_random rd0))"
  from e have "?a @ (CHR ''_'' # ?b) = ?c @ (CHR ''_'' # ?d)"
    by (simp add: session_manager_init_def)
  moreover have "length (CHR ''_'' # ?b) = length (CHR ''_'' # ?d)"
    by (simp add: randint_four)
  ultimately have ab: "?a = ?c \<and> CHR ''_'' # ?b = CHR ''_'' # ?d"
    by (metis append_eq_append_conv)
  from ab have "?a = ?c" by simp
  then have 1: "py_int_of_float (id_time rd) = py_int_of_float (id_time rd0)"
    by (rule str_int_inj)
  from ab have "?b = ?d" by simp
  then have 2: "random_randint 1000 9999 (id_random rd) = random_randint 1000 9999 (id_random rd0)"
    by (rule str_int_inj)
  from 1 2 show "py_int_of_float (id_time rd) = py_int_of_float (id_time rd0)
       \<and> id_random rd mod 9000 = id_random rd0 mod 9000"
    by (simp add: random_randint_def)
next
  assume "py_int_of_float (id_time rd) = py_int_of_float (id_time rd0)
       \<and> id_random rd mod 9000 = id_random rd0 mod 9000"
  then show "session_id (session_manager_init rd) = session_id (session_manager_init rd0)"
    by (simp add: session_manager_init_def random_randint_def)
qed

declare str_nat.simps [simp]

lemma distinct_user_agents: "distinct user_agents \<and> length user_agents = 11"
  by (simp add: user_agents_def)

lemma distinct_viewports: "distinct viewports \<and> length viewports = 7"
  by (simp add: viewports_def)

lemma random_choice_in: "xs \<noteq> [] \<Longrightarrow> random_choice xs r \<in> set xs"
  by (simp add: random_choice_def)

subsection \<open>Rotation\<close>

text \<open>
  Claim C6, as the code has it. \<open>rotate_session\<close> leaves nothing of the old session: what it
  returns is what the constructor builds from new readings of the clock and the random
  generator, whatever the session was before. The identifier is built from the second of the
  new clock reading and a new number between 1000 and 9999, user agent and viewport are the
  entries of their catalogues (of 11 and of 7 different entries) that the new draws select,
  the request count is zero and the start time is the new clock reading. The new identifier
  equals an earlier one exactly when second and number are the same, so it is new whenever
  either differs. (The claim asks for an identifier and a fingerprint that are fresh in every
  case.)
\<close>

theorem rotation_replaces_session:
  "rotate_session mgr rd = session_manager_init rd
   \<and> rotate_session mgr rd = rotate_session mgr' rd
   \<and> session_id (rotate_session mgr rd)
       = ''session_'' @ str_int (py_int_of_float (id_time rd)) @ ''_'' @
         str_int (random_randint 1000 9999 (id_random rd))
   \<and> random_randint 1000 9999 (id_random rd) = 1000 + int (id_random rd mod 9000)
   \<and> 1000 \<le> random_randint 1000 9999 (id_random rd)
   \<and> random_randint 1000 9999 (id_random rd) \<le> 9999
   \<and> user_agent (rotate_session mgr rd) = get_random_user_agent (agent_random rd)
   \<and> user_agent (rotate_session mgr rd) = user_agents ! (agent_random rd mod 11)
   \<and> user_agent (rotate_session mgr rd) \<in> set user_agents
   \<and> distinct user_agents \<and> length user_agents = 11
   \<and> viewport (rotate_session mgr rd) = get_random_viewport (viewport_random rd)
   \<and> viewport (rotate_session mgr rd) = viewports ! (viewport_random rd mod 7)
   \<and> viewport (rotate_session mgr rd) \<in> set viewports
   \<and> distinct viewports \<and> length viewports = 7
   \<and> request_count (rotate_session mgr rd) = 0
   \<and> start_time (rotate_session mgr rd) = start_clock rd
   \<and> (session_id (rotate_session mgr rd) = session_id (session_manager_init rd0))
       = (py_int_of_float (id_time rd) = py_int_of_float (id_time rd0)
          \<and> id_random rd mod 9000 = id_random rd0 mod 9000)"
proof -
  have e: "rotate_session s rd = session_manager_init rd" for s
    by (simp add: rotate_session_def session_manager_init_def)
  have 1: "rotate_session mgr rd = session_manager_init rd" by (rule e)
  have 2: "rotate_session mgr rd = rotate_session mgr' rd" by (simp only: e)
  have 3: "session_id (rotate_session mgr rd)
       = ''session_'' @ str_int (py_int_of_float (id_time rd)) @ ''_'' @
         str_int (random_randint 1000 9999 (id_random rd))"
    by (simp only: e) (simp add: session_manager_init_def)
  have 4: "random_randint 1000 9999 (id_random rd) = 1000 + int (id_random rd mod 9000)"
    by (simp add: random_randint_def)
  have 5: "1000 \<le> random_randint 1000 9999 (id_random rd)"
    by (simp add: random_randint_def)
  have 6: "random_randint 1000 9999 (id_random rd) \<le> 9999"
    by (simp add: random_randint_def)
  have 7: "user_agent (rotate_session mgr rd) = get_random_user_agent (agent_random rd)"
    by (simp only: e) (simp add: session_manager_init_def)
  have 8: "user_agent (rotate_session mgr rd) = user_agents ! (agent_random rd mod 11)"
    using distinct_user_agents
    by (simp only: 7) (simp add: get_random_user_agent_def random_choice_def)
  have 9: "user_agent (rotate_session mgr rd) \<in> set user_agents"
    unfolding 7 get_random_user_agent_def by (rule random_choice_in) (simp add: user_agents_def)
  have 10: "distinct user_agents" and 11: "length user_agents = 11"
    using distinct_user_agents by blast+
  have 12: "viewport (rotate_session mgr rd) = get_random_viewport (viewport_random rd)"
    by (simp only: e) (simp add: session_manager_init_def)
  have 13: "viewport (rotate_session mgr rd) = viewports ! (viewport_random rd mod 7)"
    using distinct_viewports
    by (simp only: 12) (simp add: get_random_viewport_def random_choice_def)
  have 14: "viewport (rotate_session mgr rd) \<in> set viewports"
    unfolding 12 get_random_viewport_def by (rule random_choice_in) (simp add: viewports_def)
  have 15: "distinct viewports" and 16: "length viewports = 7"
    using distinct_viewports by blast+
  have 17: "request_count (rotate_session mgr rd) = 0"
    by (simp only: e) (simp add: session_manager_init_def)
  have 18: "start_time (rotate_session mgr rd) = start_clock rd"
    by (simp only: e) (simp add: session_manager_init_def)
  have 19: "(session_id (rotate_session mgr rd) = session_id (session_manager_init rd0))
       = (py_int_of_float (id_time rd) = py_int_of_float (id_time rd0)
          \<and> id_random rd mod 9000 = id_random rd0 mod 9000)"
    by (simp only: e session_id_eq_iff)
  show ?thesis
    by (intro conjI; fact)
qed

text \<open>A session rotated twenty minutes after it was built has a new identifier, whatever the
  random generator gives.\<close>

theorem rotation_replaces_session_witness:
  "session_id (rotate_session (session_manager_init stub_readings\<lparr>request_count := 10\<rparr>)
       (stub_readings\<lparr>id_time := 1756167600, start_clock := 1756167600\<rparr>))
     \<noteq> session_id (session_manager_init stub_readings)
   \<and> request_count (rotate_session (session_manager_init stub_readings\<lparr>request_count := 10\<rparr>)
       (stub_readings\<lparr>id_time := 1756167600, start_clock := 1756167600\<rparr>)) = 0"
proof -
  have "py_int_of_float (id_time (stub_readings\<lparr>id_time := 1756167600, start_clock := 1756167600\<rparr>))
        \<noteq> py_int_of_float (id_time stub_readings)"
    by (simp add: stub_readings_def py_int_of_float_def)
  with rotation_replaces_session
    [of "session_manager_init stub_readings\<lparr>request_count := 10\<rparr>"
      "stub_readings\<lparr>id_time := 1756167600, start_clock := 1756167600\<rparr>" _ stub_readings]
  show ?thesis by blast
qed

text \<open>
  C6 as stated fails: a session that is rotated within the second in which it was built, when
  the random generator repeats its draws, has the identifier, the user agent and the viewport
  it had before.
\<close>

theorem rotation_not_fresh_counterexample:
  "session_id (rotate_session (session_manager_init stub_readings\<lparr>request_count := 10\<rparr>)
       stub_readings)
     = session_id (session_manager_init stub_readings\<lparr>request_count := 10\<rparr>)
   \<and> user_agent (rotate_session (session_manager_init stub_readings\<lparr>request_count := 10\<rparr>)
       stub_readings)
     = user_agent (session_manager_init stub_readings\<lparr>request_count := 10\<rparr>)
   \<and> viewport (rotate_session (session_manager_init stub_readings\<lparr>request_count := 10\<rparr>)
       stub_readings)
     = viewport (session_manager_init stub_readings\<lparr>request_count := 10\<rparr>)"
  by (simp add: rotate_session_def)

section \<open>The navigation planners: the dates\<close>

lemma collect_Inr_map:
  "(\<And>x. x \<in> set xs \<Longrightarrow> f x = Inr (g x)) \<Longrightarrow> collect f xs = Inr (map g xs)"
  by (induction xs) simp_all

lemma collect_Inr_nth:
  "collect f xs = Inr ys \<Longrightarrow> length ys = length xs \<and> (\<forall>i<length xs. f (xs ! i) = Inr (ys ! i))"
proof (induction xs arbitrary: ys)
  case Nil
  then show ?case by simp
next
  case (Cons x xs)
  from Cons.prems obtain y zs where y: "f x = Inr y" and zs: "collect f xs = Inr zs"
    and ys: "ys = y # zs"
    by (auto split: sum.splits)
  from Cons.IH [OF zs] have "length zs = length xs" "\<forall>i<length xs. f (xs ! i) = Inr (zs ! i)"
    by simp_all
  with y ys show ?case by (auto simp: nth_Cons split: nat.splits)
qed

lemma date_plus_days_Inr:
  "date_plus_days d k = Inr d' \<longleftrightarrow>
   \<bar>k\<bar> \<le> 999999999 \<and> 0 < d + k \<and> d + k \<le> max_ordinal \<and> d' = d + k"
  by (auto simp: date_plus_days_def)

lemma discovery_entry_Inr:
  "discovery_entry strftime base start_date interval k = Inr e \<longleftrightarrow>
   \<bar>k * interval\<bar> \<le> 999999999 \<and> 0 < start_date + k * interval
   \<and> start_date + k * interval + 1 \<le> max_ordinal
   \<and> e = (dated_url base (strftime (start_date + k * interval))
            (strftime (start_date + k * interval + 1)),
          strftime (start_date + k * interval))"
  by (auto simp: discovery_entry_def date_plus_days_def max_ordinal_def split: sum.splits if_splits)

lemma pricing_entry_Inr:
  "pricing_entry strftime base start_date k = Inr e \<longleftrightarrow>
   \<bar>k\<bar> \<le> 999999999 \<and> 0 < start_date + k \<and> start_date + k + 1 \<le> max_ordinal
   \<and> e = (dated_url base (strftime (start_date + k)) (strftime (start_date + k + 1)),
          strftime (start_date + k))"
  by (auto simp: pricing_entry_def date_plus_days_def max_ordinal_def split: sum.splits if_splits)

text \<open>
  Claim C8. Both planners are functions of their arguments. When a plan is returned it has
  exactly \<open>n\<close> entries (for \<open>n\<close> not negative), the \<open>i\<close>-th for the check-in date
  \<open>start_date + i * interval\<close> in discovery and \<open>start_date + i\<close> in pricing, with the
  check-out date one day later in its address; and a plan is returned whenever all these
  dates are dates, up to \<open>date.max\<close>.
\<close>

theorem planner_dates:
  "(discovery_samples strftime base start_date n interval = Inr items \<longrightarrow>
      length items = nat n
      \<and> (\<forall>i<nat n. items ! i =
            (dated_url base (strftime (start_date + int i * interval))
               (strftime (start_date + int i * interval + 1)),
             strftime (start_date + int i * interval))))
   \<and> (urls_and_dates strftime base start_date n = Inr entries \<longrightarrow>
      length entries = nat n
      \<and> (\<forall>i<nat n. entries ! i =
            (dated_url base (strftime (start_date + int i)) (strftime (start_date + int i + 1)),
             strftime (start_date + int i))))
   \<and> ((\<forall>i<nat n. \<bar>int i * interval\<bar> \<le> 999999999 \<and> 0 < start_date + int i * interval
                  \<and> start_date + int i * interval + 1 \<le> max_ordinal) \<longrightarrow>
       (\<exists>items. discovery_samples strftime base start_date n interval = Inr items))
   \<and> ((\<forall>i<nat n. int i \<le> 999999999 \<and> 0 < start_date + int i
                  \<and> start_date + int i + 1 \<le> max_ordinal) \<longrightarrow>
       (\<exists>entries. urls_and_dates strftime base start_date n = Inr entries))"
proof (intro conjI impI)
  assume a: "discovery_samples strftime base start_date n interval = Inr items"
  from collect_Inr_nth [OF a [unfolded discovery_samples_def]]
  show "length items = nat n" by simp
  show "\<forall>i<nat n. items ! i =
            (dated_url base (strftime (start_date + int i * interval))
               (strftime (start_date + int i * interval + 1)),
             strftime (start_date + int i * interval))"
  proof (intro allI impI)
    fix i assume i: "i < nat n"
    from collect_Inr_nth [OF a [unfolded discovery_samples_def]] i
    have "discovery_entry strftime base start_date interval (int i) = Inr (items ! i)"
      by simp
    then show "items ! i =
            (dated_url base (strftime (start_date + int i * interval))
               (strftime (start_date + int i * interval + 1)),
             strftime (start_date + int i * interval))"
      by (simp only: discovery_entry_Inr)
  qed
next
  assume a: "urls_and_dates strftime base start_date n = Inr entries"
  from collect_Inr_nth [OF a [unfolded urls_and_dates_def]]
  show "length entries = nat n" by simp
  show "\<forall>i<nat n. entries ! i =
            (dated_url base (strftime (start_date + int i)) (strftime (start_date + int i + 1)),
             strftime (start_date + int i))"
  proof (intro allI impI)
    fix i assume i: "i < nat n"
    from collect_Inr_nth [OF a [unfolded urls_and_dates_def]] i
    have "pricing_entry strftime base start_date (int i) = Inr (entries ! i)"
      by simp
    then show "entries ! i =
            (dated_url base (strftime (start_date + int i)) (strftime (start_date + int i + 1)),
             strftime (start_date + int i))"
      by (simp only: pricing_entry_Inr)
  qed
next
  assume a: "\<forall>i<nat n. \<bar>int i * interval\<bar> \<le> 999999999 \<and> 0 < start_date + int i * interval
                  \<and> start_date + int i * interval + 1 \<le> max_ordinal"
  let ?g = "\<lambda>k. (dated_url base (strftime (start_date + k * interval))
            (strftime (start_date + k * interval + 1)), strftime (start_date + k * interval))"
  have "collect (discovery_entry strftime base start_date interval) (map int [0..<nat n])
        = Inr (map ?g (map int [0..<nat n]))"
  proof (rule collect_Inr_map)
    fix x assume "x \<in> set (map int [0..<nat n])"
    then obtain i where "i < nat n" "x = int i" by auto
    with a show "discovery_entry strftime base start_date interval x = Inr (?g x)"
      by (simp add: discovery_entry_Inr)
  qed
  then show "\<exists>items. discovery_samples strftime base start_date n interval = Inr items"
    by (simp add: discovery_samples_def)
next
  assume a: "\<forall>i<nat n. int i \<le> 999999999 \<and> 0 < start_date + int i
                  \<and> start_date + int i + 1 \<le> max_ordinal"
  let ?g = "\<lambda>k. (dated_url base (strftime (start_date + k)) (strftime (start_date + k + 1)),
                 strftime (start_date + k))"
  have "collect (pricing_entry strftime base start_date) (map int [0..<nat n])
        = Inr (map ?g (map int [0..<nat n]))"
  proof (rule collect_Inr_map)
    fix x assume "x \<in> set (map int [0..<nat n])"
    then obtain i where "i < nat n" "x = int i" by auto
    with a show "pricing_entry strftime base start_date x = Inr (?g x)"
      by (simp add: pricing_entry_Inr)
  qed
  then show "\<exists>entries. urls_and_dates strftime base start_date n = Inr entries"
    by (simp add: urls_and_dates_def)
qed

lemma strftime_examples:
  "strftime_ymd 739489 = ''2025-08-26''" "strftime_ymd 739490 = ''2025-08-27''"
  "strftime_ymd 739496 = ''2025-09-02''" "strftime_ymd 739497 = ''2025-09-03''"
  by (simp_all add: strftime_ymd_def ord2ymd_def Let_def days_before_month_def days_in_month_def
      zero_pad_def digit_char_def)

text \<open>The sample window of the scripts: two dates from 2025-08-26, a week apart in discovery and
  consecutive in pricing.\<close>

theorem planner_dates_witness:
  "\<bar>int 0 * 7\<bar> \<le> 999999999 \<and> 0 < 739489 + int 0 * 7 \<and> 739489 + int 0 * 7 + 1 \<le> max_ordinal
   \<and> \<bar>int 1 * 7\<bar> \<le> 999999999 \<and> 0 < 739489 + int 1 * 7 \<and> 739489 + int 1 * 7 + 1 \<le> max_ordinal
   \<and> 0 < 739489 + int 1 \<and> 739489 + int 1 + 1 \<le> max_ordinal
   \<and> (\<exists>items. discovery_samples strftime_ymd ''h'' 739489 2 7 = Inr items
        \<and> length items = 2
        \<and> items ! 1 = (''h?chkin=2025-09-02&chkout=2025-09-03&x_pwa=1&rfrr=HSR'', ''2025-09-02''))
   \<and> (\<exists>entries. urls_and_dates strftime_ymd ''h'' 739489 2 = Inr entries
        \<and> length entries = 2
        \<and> entries ! 1 = (''h?chkin=2025-08-27&chkout=2025-08-28&x_pwa=1&rfrr=HSR'', ''2025-08-27''))"
proof -
  have h1: "\<forall>i<nat 2. \<bar>int i * 7\<bar> \<le> 999999999 \<and> 0 < 739489 + int i * 7
              \<and> 739489 + int i * 7 + 1 \<le> max_ordinal"
    by (simp add: max_ordinal_def)
  have h2: "\<forall>i<nat 2. int i \<le> 999999999 \<and> 0 < 739489 + int i \<and> 739489 + int i + 1 \<le> max_ordinal"
    by (simp add: max_ordinal_def)
  have s: "strftime_ymd 739498 = ''2025-09-04''" "strftime_ymd 739491 = ''2025-08-28''"
    by (simp_all add: strftime_ymd_def ord2ymd_def Let_def days_before_month_def days_in_month_def
      zero_pad_def digit_char_def)
  from planner_dates [of strftime_ymd "''h''" 739489 2 7 _ _] h1
  obtain items where i: "discovery_samples strftime_ymd ''h'' 739489 2 7 = Inr items" by blast
  from planner_dates [of strftime_ymd "''h''" 739489 2 7 _ _] h2
  obtain entries where e: "urls_and_dates strftime_ymd ''h'' 739489 2 = Inr entries" by blast
  from planner_dates [of strftime_ymd "''h''" 739489 2 7 items entries] i e
  have "length items = 2" "length entries = 2"
    "items ! 1 = (dated_url ''h'' (strftime_ymd (739489 + int 1 * 7))
               (strftime_ymd (739489 + int 1 * 7 + 1)), strftime_ymd (739489 + int 1 * 7))"
    "entries ! 1 = (dated_url ''h'' (strftime_ymd (739489 + int 1)) (strftime_ymd (739489 + int 1 + 1)),
             strftime_ymd (739489 + int 1))"
    by simp_all
  then have "length items = 2 \<and> length entries = 2
    \<and> items ! 1 = (''h?chkin=2025-09-02&chkout=2025-09-03&x_pwa=1&rfrr=HSR'', ''2025-09-02'')
    \<and> entries ! 1 = (''h?chkin=2025-08-27&chkout=2025-08-28&x_pwa=1&rfrr=HSR'', ''2025-08-27'')"
    by (simp add: strftime_examples s dated_url_def)
  with i e show ?thesis by (simp add: max_ordinal_def)
qed

section \<open>The discovery aggregator: the union\<close>

lemma add_sample_union: "add_sample A s = A \<union> add_sample {} s"
  by (cases s) simp_all

lemma foldl_add_sample: "foldl add_sample A samples = A \<union> (\<Union>s\<in>set samples. add_sample {} s)"
proof (induction samples arbitrary: A)
  case Nil
  then show ?case by simp
next
  case (Cons s samples)
  show ?case
    using Cons.IH [of "add_sample A s"] add_sample_union [of A s] by auto
qed

lemma discovered_rooms_Union: "discovered_rooms samples = (\<Union>s\<in>set samples. add_sample {} s)"
  by (simp add: discovered_rooms_def foldl_add_sample)

lemma finite_add_sample: "finite (add_sample {} s)"
  by (cases s) (simp_all add: current_sample_rooms_def)

lemma finite_discovered_rooms: "finite (discovered_rooms samples)"
  by (simp add: discovered_rooms_Union finite_add_sample)

lemma in_current_sample_rooms:
  "x \<in> current_sample_rooms room_list \<longleftrightarrow> (\<exists>it\<in>set room_list. str_of_item it = Some x)"
  unfolding current_sample_rooms_def
  by (induction room_list) (auto simp: List.map_filter_simps split: option.splits)

lemma in_add_sample:
  "x \<in> add_sample {} s \<longleftrightarrow>
   (\<exists>room_list it. s = RoomList room_list \<and> it \<in> set room_list \<and> str_of_item it = Some x)"
  by (cases s) (auto simp: in_current_sample_rooms)

text \<open>
  Claim C9. The discovered set is the union of the per-sample name sets: it does not depend on
  the order or the grouping of the samples, nor on a sample being met twice, so the room types
  of two runs that met the same samples are equal. The final list holds exactly the
  discovered names, each once, in ascending order; a name is in it exactly when some sample
  holds an element whose text is that very string.
\<close>

theorem catalog_union:
  "discovered_rooms samples = (\<Union>s\<in>set samples. add_sample {} s)
   \<and> discovered_rooms (xs @ ys) = discovered_rooms xs \<union> discovered_rooms ys
   \<and> discovered_rooms (xs @ ys) = discovered_rooms (ys @ xs)
   \<and> discovered_rooms ((xs @ ys) @ zs) = discovered_rooms (xs @ (ys @ zs))
   \<and> discovered_rooms (xs @ xs) = discovered_rooms xs
   \<and> (set samples = set samples' \<longrightarrow> room_types_of samples = room_types_of samples')
   \<and> set (room_types_of samples) = discovered_rooms samples
   \<and> distinct (room_types_of samples)
   \<and> sorted (room_types_of samples)
   \<and> (x \<in> set (room_types_of samples) \<longleftrightarrow>
        (\<exists>room_list it. RoomList room_list \<in> set samples \<and> it \<in> set room_list
                        \<and> str_of_item it = Some x))"
proof -
  have m: "x \<in> discovered_rooms samples \<longleftrightarrow>
        (\<exists>room_list it. RoomList room_list \<in> set samples \<and> it \<in> set room_list
                        \<and> str_of_item it = Some x)"
    unfolding discovered_rooms_Union by (auto simp: in_add_sample)
  have e: "set samples = set samples' \<longrightarrow> room_types_of samples = room_types_of samples'"
    by (simp add: room_types_of_def discovered_rooms_Union)
  show ?thesis
    using m e finite_discovered_rooms [of samples]
    by (auto simp: room_types_of_def discovered_rooms_Union)
qed

text \<open>Two runs over the same samples, in another order and with one sample met twice; names
  that differ in case only stay apart.\<close>

theorem catalog_union_witness:
  "set [RoomList [Str ''Twin'', Str ''twin''], CrawlFailed, RoomList [Str ''Twin'', Other]]
     = set [RoomList [Str ''Twin'', Other], RoomList [Str ''Twin'', Str ''twin''], CrawlFailed,
            RoomList [Str ''Twin'', Other]]
   \<and> room_types_of [RoomList [Str ''Twin'', Str ''twin''], CrawlFailed, RoomList [Str ''Twin'', Other]]
     = room_types_of [RoomList [Str ''Twin'', Other], RoomList [Str ''Twin'', Str ''twin''],
                      CrawlFailed, RoomList [Str ''Twin'', Other]]
   \<and> room_types_of [RoomList [Str ''Twin'', Str ''twin''], CrawlFailed, RoomList [Str ''Twin'', Other]]
     = [''Twin'', ''twin'']"
proof -
  let ?a = "[RoomList [Str ''Twin'', Str ''twin''], CrawlFailed, RoomList [Str ''Twin'', Other]]"
  let ?b = "[RoomList [Str ''Twin'', Other], RoomList [Str ''Twin'', Str ''twin''], CrawlFailed,
            RoomList [Str ''Twin'', Other]]"
  have s: "set ?a = set ?b" by auto
  have v: "room_types_of ?a = [''Twin'', ''twin'']"
    by code_simp
  from catalog_union [of ?a _ _ _ ?b] s have "room_types_of ?a = room_types_of ?b" by blast
  with s v show ?thesis by blast
qed

section \<open>The pricing run: what it does\<close>

subsection \<open>The trace of a run\<close>


lemma events_emit [simp]: "events (emit es st) = events st @ es"
  by (simp add: emit_def)

lemma events_rotate [simp]: "events (rotate w st) = events st @ [Rotated]"
  by (simp add: rotate_def)

lemma rates_emit [simp]: "all_daily_rates (emit es st) = all_daily_rates st"
  by (simp add: emit_def)

lemma rates_rotate [simp]: "all_daily_rates (rotate w st) = all_daily_rates st"
  by (simp add: rotate_def)

lemma sm_emit [simp]: "sm (emit es st) = sm st"
  by (simp add: emit_def)

lemma count_rotate [simp]: "request_count (sm (rotate w st)) = 0"
  by (simp add: rotate_def emit_def rotate_session_def session_manager_init_def)

lemma events_delay [simp]:
  "events (delay w lo hi st)
   = events st @ [Delay (human_like_delay lo hi (delay_readings_at w (delayed st)))]"
  by (simp add: delay_def)

lemma rates_delay [simp]: "all_daily_rates (delay w lo hi st) = all_daily_rates st"
  by (simp add: delay_def)

lemma sm_delay [simp]: "sm (delay w lo hi st) = sm st"
  by (simp add: delay_def emit_def)

lemma delayed_emit [simp]: "delayed (emit es st) = delayed st"
  by (simp add: emit_def)

lemma delayed_rotate [simp]: "delayed (rotate w st) = delayed st"
  by (simp add: rotate_def emit_def)

lemma delayed_delay [simp]: "delayed (delay w lo hi st) = Suc (delayed st)"
  by (simp add: delay_def emit_def)

subsection \<open>How long a delay is\<close>





lemma crawls_warn_missing [simp]: "crawls (warn_missing expected v) = []"
  by (simp add: warn_missing_def Let_def)









subsection \<open>Runs against the stub\<close>

lemmas strftime_unfold = strftime_ymd_def ord2ymd_def Let_def days_before_month_def
  days_in_month_def zero_pad_def digit_char_def


lemma usable_stub: "usable_content (arun (stub_world (c # cs)) idx url) = Some (c # cs)"
  by (simp add: usable_content_def stub_world_def)

lemma first_day_no_rotation:
  "\<not> should_rotate_session (sm (first_state (stub_world page))) (time_at (stub_world page) idx)"
  by (simp add: should_rotate_session_def first_state_def stub_world_def session_manager_init_def
      stub_readings_def request_limit_def time_limit_def)


lemma stub_delay_readings_at [simp]:
  "delay_readings_at (stub_world page) k = stub_delay_readings"
  by (simp add: stub_world_def)

lemma one_day_plan:
  "urls_and_dates strftime_ymd (hotel_url minn_juso) 739489 1
   = Inr [(''https://www.expedia.co.jp/en/Osaka-Hotels-Minn-Juso.h18638909.Hotel-Information?chkin=2025-08-26&chkout=2025-08-27&x_pwa=1&rfrr=HSR'',
           ''2025-08-26'')]"
  by (simp add: urls_and_dates_def pricing_entry_def date_plus_days_def max_ordinal_def
      dated_url_def minn_juso_def strftime_unfold)


subsection \<open>The claims about the run\<close>







text \<open>
  Claim C4, where the code departs from it. The list of the Python check has four of the five
  keywords: \<open>robot\<close> is in the two JavaScript lists only. A page text whose only keyword is
  \<open>robot\<close> is a CAPTCHA page for the JavaScript check and none for the Python check, and the
  attempt goes on to parse the text instead of ending as a CAPTCHA.
\<close>

lemma robot_page: "\<not> captcha_detected ''Are you a robot?''"
  by code_simp

lemma robot_page_js: "hasCaptcha ''Are you a robot?''"
  by code_simp

theorem captcha_check_misses_robot:
  "hasCaptcha ''Are you a robot?''
   \<and> \<not> captcha_detected ''Are you a robot?''
   \<and> scrape_hotel_prices (stub_world ''Are you a robot?'') strftime_ymd minn_juso 739489 1
       = Inr (None,
           [WarmUp,
            Crawl ''2025-08-26''
              ''https://www.expedia.co.jp/en/Osaka-Hotels-Minn-Juso.h18638909.Hotel-Information?chkin=2025-08-26&chkout=2025-08-27&x_pwa=1&rfrr=HSR'',
            SaveFile ''debug_2025-08-26.txt'' ''Are you a robot?''])"
proof -
  have p: "loads_validate (stub_world page) t = JSONDecodeError" for page t
    by (simp add: stub_world_def)
  have "scrape_hotel_prices (stub_world ''Are you a robot?'') strftime_ymd minn_juso 739489 1
       = Inr (None,
           [WarmUp,
            Crawl ''2025-08-26''
              ''https://www.expedia.co.jp/en/Osaka-Hotels-Minn-Juso.h18638909.Hotel-Information?chkin=2025-08-26&chkout=2025-08-27&x_pwa=1&rfrr=HSR'',
            SaveFile ''debug_2025-08-26.txt'' ''Are you a robot?''])"
    by (simp add: scrape_hotel_prices_def one_day_plan scrape_day_def Let_def
        first_day_no_rotation usable_stub robot_page parse_day_def p)
      (simp add: first_state_def)
  with robot_page robot_page_js show ?thesis by blast
qed

text \<open>
  Claim C7, where the code departs from it. The warning is guarded by a comparison of the two
  lengths: a validated rate with as many listings as the catalogue has names, one of them
  twice, omits a catalogue name and nothing is reported.
\<close>

theorem missing_room_not_reported:
  "length (listings \<lparr>date = ''2025-08-26'',
      listings = [\<lparr>name = ''Standard Room'', price = ''10000''\<rparr>,
                  \<lparr>name = ''Deluxe Room'', price = ''12000''\<rparr>,
                  \<lparr>name = ''Deluxe Room'', price = ''Sold Out''\<rparr>]\<rparr>) = 3
   \<and> set (room_types minn_juso)
       - set (map name (listings \<lparr>date = ''2025-08-26'',
           listings = [\<lparr>name = ''Standard Room'', price = ''10000''\<rparr>,
                       \<lparr>name = ''Deluxe Room'', price = ''12000''\<rparr>,
                       \<lparr>name = ''Deluxe Room'', price = ''Sold Out''\<rparr>]\<rparr>))
       = {''Family Room''}
   \<and> warn_missing (room_types minn_juso)
        \<lparr>date = ''2025-08-26'',
         listings = [\<lparr>name = ''Standard Room'', price = ''10000''\<rparr>,
                     \<lparr>name = ''Deluxe Room'', price = ''12000''\<rparr>,
                     \<lparr>name = ''Deluxe Room'', price = ''Sold Out''\<rparr>]\<rparr> = []"
  by (auto simp: warn_missing_def minn_juso_def)

end
